theory Spec2Isabelle
  imports Complex_Main
begin

chapter \<open>The model\<close>

section \<open>Twin events (utils.py, AsyncTwinEvent and get\_twin\_event)\<close>

text \<open>
  An \<^verbatim>\<open>AsyncTwinEvent\<close> is an \<^verbatim>\<open>asyncio.Event\<close> (a boolean flag) with a reference
  \<^verbatim>\<open>_twin\<close> to another such object. The two objects of a pair point at each other, so the
  model keeps the objects in a store (a list indexed by the object's address) and the
  reference is an address. Only the flag of \<^verbatim>\<open>asyncio.Event\<close> is modelled; none of the
  methods below awaits, so each runs without interleaving.
\<close>

record twin_event =
  flag :: bool
  twin :: "nat option"

type_synonym event_store = "twin_event list"

text \<open>\<^verbatim>\<open>AsyncTwinEvent.__init__\<close>: the flag of a new \<^verbatim>\<open>asyncio.Event\<close> is false, no twin.\<close>

definition new_twin_event :: twin_event where
  "new_twin_event = \<lparr>flag = False, twin = None\<rparr>"

definition is_set :: "event_store \<Rightarrow> nat \<Rightarrow> bool" where
  "is_set st a = flag (st ! a)"

text \<open>The methods of the base class, reached in the source through \<^verbatim>\<open>super()\<close>.\<close>

definition Event_set :: "event_store \<Rightarrow> nat \<Rightarrow> event_store" where
  "Event_set st a = st[a := (st ! a)\<lparr>flag := True\<rparr>]"

definition Event_clear :: "event_store \<Rightarrow> nat \<Rightarrow> event_store" where
  "Event_clear st a = st[a := (st ! a)\<lparr>flag := False\<rparr>]"

definition bind :: "event_store \<Rightarrow> nat \<Rightarrow> nat \<Rightarrow> event_store" where
  "bind st self tw =
     (let st1 = st[self := (st ! self)\<lparr>twin := Some tw\<rparr>]
      in if is_set st1 self then Event_clear st1 tw else Event_set st1 tw)"

definition twin_set :: "event_store \<Rightarrow> nat \<Rightarrow> event_store" where
  "twin_set st self =
     (let st1 = Event_set st self
      in case twin (st1 ! self) of None \<Rightarrow> st1 | Some tw \<Rightarrow> Event_clear st1 tw)"

definition twin_clear :: "event_store \<Rightarrow> nat \<Rightarrow> event_store" where
  "twin_clear st self =
     (let st1 = Event_clear st self
      in case twin (st1 ! self) of None \<Rightarrow> st1 | Some tw \<Rightarrow> Event_set st1 tw)"

text \<open>
  \<^verbatim>\<open>get_twin_event\<close> allocates two objects (here at the end of the store), binds each to
  the other and returns both addresses.
\<close>

definition get_twin_event :: "event_store \<Rightarrow> (nat \<times> nat) \<times> event_store" where
  "get_twin_event st =
     (let a = length st;
          b = Suc (length st);
          st1 = st @ [new_twin_event, new_twin_event];
          st2 = bind st1 a b;
          st3 = bind st2 b a
      in ((a, b), st3))"

text \<open>The operations a holder of the pair can perform on it.\<close>

datatype twin_side = First | Second

datatype twin_op = Set twin_side | Clear twin_side

fun side_addr :: "nat \<times> nat \<Rightarrow> twin_side \<Rightarrow> nat" where
  "side_addr (a, b) First = a"
| "side_addr (a, b) Second = b"

fun twin_step :: "nat \<times> nat \<Rightarrow> event_store \<Rightarrow> twin_op \<Rightarrow> event_store" where
  "twin_step p st (Set s) = twin_set st (side_addr p s)"
| "twin_step p st (Clear s) = twin_clear st (side_addr p s)"

definition twin_run :: "nat \<times> nat \<Rightarrow> event_store \<Rightarrow> twin_op list \<Rightarrow> event_store" where
  "twin_run p st ops = foldl (twin_step p) st ops"

text \<open>What the operations on a pair keep true of its two objects.\<close>

definition twin_linked :: "event_store \<Rightarrow> nat \<Rightarrow> nat \<Rightarrow> bool" where
  "twin_linked st a b \<longleftrightarrow>
     a < length st \<and> b < length st \<and> a \<noteq> b \<and>
     twin (st ! a) = Some b \<and> twin (st ! b) = Some a \<and> is_set st a \<noteq> is_set st b"

section \<open>Decorator configuration (utils.py: async\_guard, cooldown, speedlimit)\<close>

text \<open>
  \<^verbatim>\<open>ValidateError\<close> of the source, with the place that raised it (the source gives a
  message text instead).
\<close>

datatype validate_cause = NotCallableObject | NotAwaitableResult | BadLimit | BadDuration

datatype validate_error = ValidateError validate_cause

text \<open>
  A Python object handed over as a callback: either it is callable, and calling it gives
  an awaitable (whose awaited value is kept) or a plain value, or it is not callable.
\<close>

datatype 'a call_result = Awaitable 'a | NotAwaitable 'a

datatype ('x, 'a) pyobj = Callable "'x \<Rightarrow> 'a call_result" | NotCallable

definition async_guard :: "('x, 'a) pyobj \<Rightarrow> 'x \<Rightarrow> validate_error + 'a" where
  "async_guard func args =
     (case func of
        NotCallable \<Rightarrow> Inl (ValidateError NotCallableObject)
      | Callable f \<Rightarrow>
          (case f args of
             Awaitable v \<Rightarrow> Inr v
           | NotAwaitable v \<Rightarrow> Inl (ValidateError NotAwaitableResult)))"

text \<open>
  The outer call \<^verbatim>\<open>cooldown(busy_callback, cd_callback, interval)\<close> creates the lock and
  the time stamp that the decorated function closes over and returns the decorator. The
  reading of \<^verbatim>\<open>time.perf_counter()\<close> is the argument \<open>now\<close>.
\<close>

record ('b, 'c) cooldown_closure =
  cd_busy_callback :: "'b option"
  cd_cd_callback :: "'c option"
  cd_interval :: real
  cd_alock_locked :: bool
  cd_pre_finish_t :: real

definition cooldown ::
  "'b option \<Rightarrow> 'c option \<Rightarrow> real \<Rightarrow> real \<Rightarrow> validate_error + ('b, 'c) cooldown_closure" where
  "cooldown busy_callback cd_callback interval now =
     Inr \<lparr>cd_busy_callback = busy_callback, cd_cd_callback = cd_callback,
          cd_interval = interval, cd_alock_locked = False,
          cd_pre_finish_t = now - interval - 1\<rparr>"

text \<open>
  The outer call \<^verbatim>\<open>speedlimit(callback, limit, duration)\<close>: the two checks come after the
  counter and the window start are initialised and before the decorator is returned.
\<close>

record 'b speedlimit_closure =
  sl_callback :: "'b option"
  sl_limit :: int
  sl_duration :: int
  sl_called_num :: int
  sl_min_start :: real

definition speedlimit ::
  "'b option \<Rightarrow> int \<Rightarrow> int \<Rightarrow> real \<Rightarrow> validate_error + 'b speedlimit_closure" where
  "speedlimit callback limit duration now =
     (if limit \<le> 0 then Inl (ValidateError BadLimit)
      else if duration \<le> 0 then Inl (ValidateError BadDuration)
      else Inr \<lparr>sl_callback = callback, sl_limit = limit, sl_duration = duration,
                sl_called_num = 0, sl_min_start = now\<rparr>)"

section \<open>Sessions (session/base.py)\<close>

subsection \<open>Data\<close>

text \<open>
  The four subclasses of \<^verbatim>\<open>SessionState\<close>; a session's \<^verbatim>\<open>_state\<close> is an instance of
  exactly one of them (Working, Spare, Suspended and Expired of the specification).
\<close>

datatype session_state =
  WorkingSessionState | SpareSessionState | SuspendSessionState | ExpireSessionState

text \<open>
  \<^verbatim>\<open>SessionStateError\<close> is raised either with the name of the refused method or with a
  text saying that the session has no rule. \<^verbatim>\<open>KeyError\<close> is what \<^verbatim>\<open>set.remove\<close> and a
  dictionary lookup raise.
\<close>

datatype state_error_info = Unsupported string | MissingRule

datatype session_error = SessionStateError state_error_info | KeyError

text \<open>
  The two condition variables of a session. What the model keeps of them is the sequence
  of \<^verbatim>\<open>notify()\<close> calls made on them, oldest first. Acquiring the lock of a condition
  (\<^verbatim>\<open>async with cond\<close>) is not modelled. The key-value store of a session is left out:
  none of the methods below reads or writes it.
\<close>

datatype condition = refresh_cond | wakeup_cond

record ('e, 'r) session =
  event :: 'e
  rule :: "'r option"
  keep :: bool
  state :: session_state
  notified :: "condition list"

definition Session_init :: "'e \<Rightarrow> 'r option \<Rightarrow> bool \<Rightarrow> ('e, 'r) session" where
  "Session_init ev r k =
     \<lparr>event = ev, rule = r, keep = k, state = WorkingSessionState, notified = []\<rparr>"

definition to_state :: "('e, 'r) session \<Rightarrow> session_state \<Rightarrow> ('e, 'r) session" where
  "to_state s c = s\<lparr>state := c\<rparr>"

definition on_state :: "('e, 'r) session \<Rightarrow> session_state \<Rightarrow> bool" where
  "on_state s c \<longleftrightarrow> state s = c"

definition notify :: "('e, 'r) session \<Rightarrow> condition \<Rightarrow> ('e, 'r) session" where
  "notify s c = s\<lparr>notified := notified s @ [c]\<rparr>"

subsection \<open>The methods of the state classes\<close>

text \<open>The base class \<^verbatim>\<open>SessionState\<close> refuses every operation.\<close>

definition SessionState_refuse :: "string \<Rightarrow> session_error + 'a" where
  "SessionState_refuse meth = Inl (SessionStateError (Unsupported meth))"

definition SpareSessionState_work :: "('e, 'r) session \<Rightarrow> 'e \<Rightarrow> ('e, 'r) session" where
  "SpareSessionState_work s ev = to_state (s\<lparr>event := ev\<rparr>) WorkingSessionState"

definition WorkingSessionState_rest ::
  "('e, 'r) session \<Rightarrow> session_error + ('e, 'r) session" where
  "WorkingSessionState_rest s =
     (if rule s = None then Inl (SessionStateError MissingRule)
      else Inr (to_state (notify s refresh_cond) SpareSessionState))"

text \<open>
  \<^verbatim>\<open>WorkingSessionState.suspend\<close> up to the point where it starts to wait on
  \<^verbatim>\<open>wakeup_cond\<close>.
\<close>

definition WorkingSessionState_suspend_enter ::
  "('e, 'r) session \<Rightarrow> session_error + ('e, 'r) session" where
  "WorkingSessionState_suspend_enter s =
     (if rule s = None then Inl (SessionStateError MissingRule)
      else Inr (to_state (notify s refresh_cond) SuspendSessionState))"

definition WorkingSessionState_expire :: "('e, 'r) session \<Rightarrow> ('e, 'r) session" where
  "WorkingSessionState_expire s =
     to_state (if rule s \<noteq> None then notify s refresh_cond else s) ExpireSessionState"

definition SuspendSessionState_wakeup :: "('e, 'r) session \<Rightarrow> 'e \<Rightarrow> ('e, 'r) session" where
  "SuspendSessionState_wakeup s ev =
     to_state (notify (s\<lparr>event := ev\<rparr>) wakeup_cond) WorkingSessionState"

subsection \<open>The methods of Session: dispatch on the state object\<close>

definition work :: "('e, 'r) session \<Rightarrow> 'e \<Rightarrow> session_error + ('e, 'r) session" where
  "work s ev =
     (case state s of
        SpareSessionState \<Rightarrow> Inr (SpareSessionState_work s ev)
      | _ \<Rightarrow> SessionState_refuse ''work'')"

definition rest :: "('e, 'r) session \<Rightarrow> session_error + ('e, 'r) session" where
  "rest s =
     (case state s of
        WorkingSessionState \<Rightarrow> WorkingSessionState_rest s
      | _ \<Rightarrow> SessionState_refuse ''rest'')"

definition wakeup :: "('e, 'r) session \<Rightarrow> 'e \<Rightarrow> session_error + ('e, 'r) session" where
  "wakeup s ev =
     (case state s of
        SuspendSessionState \<Rightarrow> Inr (SuspendSessionState_wakeup s ev)
      | _ \<Rightarrow> SessionState_refuse ''wakeup'')"

definition expire :: "('e, 'r) session \<Rightarrow> session_error + ('e, 'r) session" where
  "expire s =
     (case state s of
        WorkingSessionState \<Rightarrow> Inr (WorkingSessionState_expire s)
      | _ \<Rightarrow> SessionState_refuse ''expire'')"

text \<open>\<^verbatim>\<open>Session.suspend\<close> up to the wait.\<close>

definition suspend_enter :: "('e, 'r) session \<Rightarrow> session_error + ('e, 'r) session" where
  "suspend_enter s =
     (case state s of
        WorkingSessionState \<Rightarrow> WorkingSessionState_suspend_enter s
      | _ \<Rightarrow> SessionState_refuse ''suspend'')"

text \<open>
  \<^verbatim>\<open>suspend\<close> waits, and what it returns depends on what other tasks do meanwhile. The
  wait on \<^verbatim>\<open>wakeup_cond\<close> ends when the condition is notified, which only \<^verbatim>\<open>wakeup\<close>
  does, or when the timeout runs out. The argument \<open>woken\<close> says which: \<open>Some ev\<close> when
  another task calls \<^verbatim>\<open>wakeup(ev)\<close> on the session in time, \<open>None\<close> when none does. The
  result \<open>None\<close> is a call that never returns (no timeout and no wakeup).
\<close>

definition suspend ::
  "('e, 'r) session \<Rightarrow> real option \<Rightarrow> 'e option \<Rightarrow>
     (session_error + bool \<times> ('e, 'r) session) option" where
  "suspend s timeout woken =
     (case suspend_enter s of
        Inl err \<Rightarrow> Some (Inl err)
      | Inr s1 \<Rightarrow>
          (case woken of
             Some ev \<Rightarrow> Some (Inr (True, SuspendSessionState_wakeup s1 ev))
           | None \<Rightarrow>
               (case timeout of
                  None \<Rightarrow> None
                | Some t \<Rightarrow> Some (Inr (False, s1)))))"

text \<open>
  Leaving the region \<^verbatim>\<open>async with session.ctx()\<close>. The body is left normally, by an
  exception, or by cancellation (\<^verbatim>\<open>asyncio.CancelledError\<close>, which the \<^verbatim>\<open>except\<close>
  clause catches). The result is the \<^verbatim>\<open>SessionStateError\<close> raised on the way out, if any,
  and the session as it is left. An error raised in the \<^verbatim>\<open>finally\<close> clause replaces one
  raised in the \<^verbatim>\<open>except\<close> clause.
\<close>

datatype exit_kind = NormalExit | ExceptionExit | CancelledExit

definition ctx_exit ::
  "exit_kind \<Rightarrow> ('e, 'r) session \<Rightarrow> session_error option \<times> ('e, 'r) session" where
  "ctx_exit k s =
     (let r1 = (if k = CancelledExit \<and> on_state s SuspendSessionState
                then wakeup s (event s) else Inr s);
          s1 = (case r1 of Inl err \<Rightarrow> s | Inr s' \<Rightarrow> s');
          r2 = (if keep s1 then rest s1 else expire s1)
      in case r2 of
           Inl err \<Rightarrow> (Some err, s1)
         | Inr s2 \<Rightarrow> (case r1 of Inl err \<Rightarrow> (Some err, s2) | Inr s' \<Rightarrow> (None, s2)))"

section \<open>The session registry (session/base.py, Session.get)\<close>

subsection \<open>Shared state\<close>

text \<open>
  Sessions are shared objects: the registry, the handler and \<^verbatim>\<open>Session.get\<close> hold
  references to the same session and see each other's changes. The model keeps the
  objects in a list; a reference is an index into it, and a new object is put at the end.

  \<^verbatim>\<open>Session.__instances__\<close> maps a rule to a set of sessions. The set is kept as the list of
  its members in the order in which Python iterates it; nothing below depends on which
  order that is. \<^verbatim>\<open>Session.__instance_locks__\<close> is kept as the set of rules that have a
  lock. Calls of \<^verbatim>\<open>nowait_cb\<close> are counted.
\<close>

record ('e, 'r) world =
  sessions :: "('e, 'r) session list"
  instances :: "'r \<Rightarrow> nat list option"
  instance_locks :: "'r set"
  nowait_cb_calls :: nat

definition init_world :: "('e, 'r) world" where
  "init_world =
     \<lparr>sessions = [], instances = (\<lambda>r. None), instance_locks = {}, nowait_cb_calls = 0\<rparr>"

text \<open>
  Calling a method on the session object at index \<open>i\<close>: the object is replaced by the
  result, or left as it is when the method raises.
\<close>

definition session_call ::
  "('e, 'r) world \<Rightarrow> nat \<Rightarrow> (('e, 'r) session \<Rightarrow> session_error + ('e, 'r) session) \<Rightarrow>
     session_error option \<times> ('e, 'r) world" where
  "session_call w i meth =
     (case meth (sessions w ! i) of
        Inl err \<Rightarrow> (Some err, w)
      | Inr s' \<Rightarrow> (None, w\<lparr>sessions := (sessions w)[i := s']\<rparr>))"

definition set_keep :: "('e, 'r) world \<Rightarrow> nat \<Rightarrow> bool \<Rightarrow> ('e, 'r) world" where
  "set_keep w i k = w\<lparr>sessions := (sessions w)[i := (sessions w ! i)\<lparr>keep := k\<rparr>]\<rparr>"

subsection \<open>What other tasks do while get waits\<close>

text \<open>
  \<^verbatim>\<open>Session.get\<close> waits on the \<^verbatim>\<open>refresh_cond\<close> of a Working session. While it waits,
  other tasks run and call methods on sessions (a handler calling \<^verbatim>\<open>suspend\<close> gets as
  far as \<^verbatim>\<open>suspend_enter\<close>). They cannot run the body of \<^verbatim>\<open>get\<close> for the same rule,
  because the waiting call holds the lock of the rule. The environment of a call of
  \<^verbatim>\<open>get\<close> is, for each wait in turn, the list of method calls that other tasks make
  until the waiting call runs again; an error raised in another task is that task's
  business and leaves the session as it was. Calls of \<^verbatim>\<open>get\<close> for other rules that
  run during a wait are not part of the environment: calls of \<^verbatim>\<open>get\<close> are modelled one
  after the other.
\<close>

datatype 'e session_op = OpWork 'e | OpRest | OpSuspend | OpWakeup 'e | OpExpire

fun op_method :: "'e session_op \<Rightarrow> ('e, 'r) session \<Rightarrow> session_error + ('e, 'r) session" where
  "op_method (OpWork ev) s = work s ev"
| "op_method OpRest s = rest s"
| "op_method OpSuspend s = suspend_enter s"
| "op_method (OpWakeup ev) s = wakeup s ev"
| "op_method OpExpire s = expire s"

definition run_op :: "('e, 'r) world \<Rightarrow> nat \<times> 'e session_op \<Rightarrow> ('e, 'r) world" where
  "run_op w c =
     (if fst c < length (sessions w) then snd (session_call w (fst c) (op_method (snd c)))
      else w)"

definition run_ops :: "('e, 'r) world \<Rightarrow> (nat \<times> 'e session_op) list \<Rightarrow> ('e, 'r) world" where
  "run_ops w cs = foldl run_op w cs"

text \<open>How often \<^verbatim>\<open>refresh_cond\<close> of a session has been notified.\<close>

definition refresh_count :: "('e, 'r) session \<Rightarrow> nat" where
  "refresh_count s = count_list (notified s) refresh_cond"

subsection \<open>Session.get\<close>

text \<open>
  How a call ends: it returns a value (a session reference or \<^verbatim>\<open>None\<close>), it raises, or
  it never gets past a wait. In each case the shared state it leaves behind is given.
  \<^verbatim>\<open>rule.compare\<close> is taken to be a function of the rule and the two events, evaluated
  without interleaving.
\<close>

datatype outcome = Value "nat option" | Raised session_error | Blocked

text \<open>The first loop: wake the first Suspended session that matches.\<close>

fun scan_suspends ::
  "('r \<Rightarrow> 'e \<Rightarrow> 'e \<Rightarrow> bool) \<Rightarrow> 'r \<Rightarrow> 'e \<Rightarrow> nat list \<Rightarrow> ('e, 'r) world \<Rightarrow>
     (outcome \<times> ('e, 'r) world) option" where
  "scan_suspends cmp r ev [] w = None"
| "scan_suspends cmp r ev (i # rest_set) w =
     (if on_state (sessions w ! i) SuspendSessionState \<and> cmp r (event (sessions w ! i)) ev
      then (case session_call w i (\<lambda>s. wakeup s ev) of
              (Some err, w') \<Rightarrow> Some (Raised err, w')
            | (None, w') \<Rightarrow> Some (Value None, w'))
      else scan_suspends cmp r ev rest_set w)"

text \<open>The second loop: take over the first Spare session that matches.\<close>

fun scan_spares ::
  "('r \<Rightarrow> 'e \<Rightarrow> 'e \<Rightarrow> bool) \<Rightarrow> 'r \<Rightarrow> 'e \<Rightarrow> bool \<Rightarrow> nat list \<Rightarrow> ('e, 'r) world \<Rightarrow>
     (outcome \<times> ('e, 'r) world) option" where
  "scan_spares cmp r ev k [] w = None"
| "scan_spares cmp r ev k (i # rest_set) w =
     (if on_state (sessions w ! i) SpareSessionState \<and> cmp r (event (sessions w ! i)) ev
      then (case session_call w i (\<lambda>s. work s ev) of
              (Some err, w') \<Rightarrow> Some (Raised err, w')
            | (None, w') \<Rightarrow> Some (Value (Some i), set_keep w' i k))
      else scan_spares cmp r ev k rest_set w)"

text \<open>
  The third loop, over the sessions that are Working when the iteration reaches them
  (\<^verbatim>\<open>filter\<close> is lazy). It ends the call, or it runs to its end and hands on the list of
  expired sessions, to which it has added the awaited sessions that it found Expired after
  the wait. A wait ends when \<^verbatim>\<open>refresh_cond\<close> of the awaited session has been notified; with
  nothing left in the environment, or no such notification in its next part, the call
  never gets past the wait.
\<close>

datatype ('e, 'r) loop_exit =
  LoopEnds outcome "('e, 'r) world"
| LoopDone "nat list" "('e, 'r) world"

fun scan_workings ::
  "('r \<Rightarrow> 'e \<Rightarrow> 'e \<Rightarrow> bool) \<Rightarrow> 'r \<Rightarrow> 'e \<Rightarrow> bool \<Rightarrow> bool \<Rightarrow> bool \<Rightarrow> nat list \<Rightarrow> nat list \<Rightarrow>
     (nat \<times> 'e session_op) list list \<Rightarrow> ('e, 'r) world \<Rightarrow> ('e, 'r) loop_exit" where
  "scan_workings cmp r ev wait has_cb k [] expires env w = LoopDone expires w"
| "scan_workings cmp r ev wait has_cb k (i # rest_set) expires env w =
     (if \<not> on_state (sessions w ! i) WorkingSessionState
      then scan_workings cmp r ev wait has_cb k rest_set expires env w
      else if \<not> cmp r (event (sessions w ! i)) ev
      then scan_workings cmp r ev wait has_cb k rest_set expires env w
      else if \<not> wait
      then LoopEnds (Value None)
             (if has_cb then w\<lparr>nowait_cb_calls := Suc (nowait_cb_calls w)\<rparr> else w)
      else (case env of
              [] \<Rightarrow> LoopEnds Blocked w
            | cs # env' \<Rightarrow>
                (let w1 = run_ops w cs in
                 if refresh_count (sessions w1 ! i) \<le> refresh_count (sessions w ! i)
                 then LoopEnds Blocked w1
                 else if on_state (sessions w1 ! i) ExpireSessionState
                 then scan_workings cmp r ev wait has_cb k rest_set (expires @ [i]) env' w1
                 else if on_state (sessions w1 ! i) SuspendSessionState
                 then (case session_call w1 i (\<lambda>s. wakeup s ev) of
                         (Some err, w2) \<Rightarrow> LoopEnds (Raised err) w2
                       | (None, w2) \<Rightarrow> LoopEnds (Value None) w2)
                 else (case session_call w1 i (\<lambda>s. work s ev) of
                         (Some err, w2) \<Rightarrow> LoopEnds (Raised err) w2
                       | (None, w2) \<Rightarrow> LoopEnds (Value (Some i)) (set_keep w2 i k)))))"

text \<open>
  The last loop: \<^verbatim>\<open>Session.__instances__[session.rule].remove(session)\<close> for each
  collected session. A missing key and a missing member raise \<^verbatim>\<open>KeyError\<close>.
\<close>

fun remove_expired ::
  "nat list \<Rightarrow> ('e, 'r) world \<Rightarrow> session_error option \<times> ('e, 'r) world" where
  "remove_expired [] w = (None, w)"
| "remove_expired (i # expires) w =
     (case rule (sessions w ! i) of
        None \<Rightarrow> (Some KeyError, w)
      | Some r' \<Rightarrow>
          (case instances w r' of
             None \<Rightarrow> (Some KeyError, w)
           | Some members \<Rightarrow>
               if i \<in> set members
               then remove_expired expires
                      (w\<lparr>instances := (instances w)(r' \<mapsto> removeAll i members)\<rparr>)
               else (Some KeyError, w)))"

text \<open>The end of \<^verbatim>\<open>get\<close>: a new session for the rule, added to the set of the rule.\<close>

definition create_session ::
  "'e \<Rightarrow> 'r \<Rightarrow> bool \<Rightarrow> ('e, 'r) world \<Rightarrow> outcome \<times> ('e, 'r) world" where
  "create_session ev r k w =
     (let new = length (sessions w);
          w1 = w\<lparr>sessions := sessions w @ [Session_init ev (Some r) k]\<rparr>
      in case instances w1 r of
           None \<Rightarrow> (Raised KeyError, w1)
         | Some members \<Rightarrow>
             (Value (Some new),
              w1\<lparr>instances := (instances w1)
                     (r \<mapsto> (if new \<in> set members then members else members @ [new]))\<rparr>))"

definition get ::
  "('r \<Rightarrow> 'e \<Rightarrow> 'e \<Rightarrow> bool) \<Rightarrow> 'e \<Rightarrow> 'r option \<Rightarrow> bool \<Rightarrow> bool \<Rightarrow> bool \<Rightarrow>
     (nat \<times> 'e session_op) list list \<Rightarrow> ('e, 'r) world \<Rightarrow> outcome \<times> ('e, 'r) world" where
  "get cmp ev rule_arg wait has_cb k env w =
     (case rule_arg of
        None \<Rightarrow>
          (Value (Some (length (sessions w))),
           w\<lparr>sessions := sessions w @ [Session_init ev None k]\<rparr>)
      | Some r \<Rightarrow>
          (let w1 = w\<lparr>instance_locks := insert r (instance_locks w)\<rparr>;
               members = (case instances w1 r of None \<Rightarrow> [] | Some ms \<Rightarrow> ms);
               w2 = w1\<lparr>instances := (instances w1)(r \<mapsto> members)\<rparr>
           in case scan_suspends cmp r ev members w2 of
                Some res \<Rightarrow> res
              | None \<Rightarrow>
                  (case scan_spares cmp r ev k members w2 of
                     Some res \<Rightarrow> res
                   | None \<Rightarrow>
                       (let expires =
                              filter (\<lambda>i. on_state (sessions w2 ! i) ExpireSessionState) members
                        in case scan_workings cmp r ev wait has_cb k members expires env w2 of
                             LoopEnds out w3 \<Rightarrow> (out, w3)
                           | LoopDone expires' w3 \<Rightarrow>
                               (case remove_expired expires' w3 of
                                  (Some err, w4) \<Rightarrow> (Raised err, w4)
                                | (None, w4) \<Rightarrow> create_session ev r k w4)))))"

subsection \<open>What no method call changes\<close>

text \<open>
  A step from one shared state to a later one in which no session was created and the
  registry was not touched: the rules of the sessions are the same, and a session that
  was Expired is still Expired. Every method call on a session is such a step, because
  no state class accepts an operation on an Expired session.
\<close>

definition evolves :: "('e, 'r) world \<Rightarrow> ('e, 'r) world \<Rightarrow> bool" where
  "evolves w w' \<longleftrightarrow>
     length (sessions w') = length (sessions w) \<and> instances w' = instances w \<and>
     (\<forall>i. rule (sessions w' ! i) = rule (sessions w ! i) \<and>
          (state (sessions w ! i) = ExpireSessionState \<longrightarrow>
             state (sessions w' ! i) = ExpireSessionState))"

definition tame ::
  "(('e, 'r) session \<Rightarrow> session_error + ('e, 'r) session) \<Rightarrow> bool" where
  "tame meth \<longleftrightarrow>
     (\<forall>s s'. meth s = Inr s' \<longrightarrow> rule s' = rule s \<and> state s \<noteq> ExpireSessionState)"

subsection \<open>Well-formed registries\<close>

text \<open>
  \<open>wf_world\<close>: every member of the set of a rule is an existing session with that rule,
  and is there once. \<open>registered\<close>: every session with a rule that is not Expired is a
  member of the set of its rule.
\<close>

definition wf_world :: "('e, 'r) world \<Rightarrow> bool" where
  "wf_world w \<longleftrightarrow>
     (\<forall>r ms. instances w r = Some ms \<longrightarrow>
        distinct ms \<and> (\<forall>i\<in>set ms. i < length (sessions w) \<and> rule (sessions w ! i) = Some r))"

definition registered :: "('e, 'r) world \<Rightarrow> bool" where
  "registered w \<longleftrightarrow>
     (\<forall>i r. i < length (sessions w) \<and> rule (sessions w ! i) = Some r \<and>
        state (sessions w ! i) \<noteq> ExpireSessionState \<longrightarrow>
        (\<exists>ms. instances w r = Some ms \<and> i \<in> set ms))"

subsection \<open>Removing the expired sessions\<close>

definition shrinks :: "nat set \<Rightarrow> ('e, 'r) world \<Rightarrow> ('e, 'r) world \<Rightarrow> bool" where
  "shrinks X w w' \<longleftrightarrow>
     sessions w' = sessions w \<and>
     (\<forall>r. instances w r = None \<longrightarrow> instances w' r = None) \<and>
     (\<forall>r ms. instances w r = Some ms \<longrightarrow>
        (\<exists>Y. Y \<subseteq> X \<and> instances w' r = Some (filter (\<lambda>i. i \<notin> Y) ms)))"

subsection \<open>The ways a call of get can end\<close>

definition members_of :: "'r \<Rightarrow> ('e, 'r) world \<Rightarrow> nat list" where
  "members_of r w = (case instances w r of None \<Rightarrow> [] | Some ms \<Rightarrow> ms)"

definition get_entry :: "'r \<Rightarrow> ('e, 'r) world \<Rightarrow> ('e, 'r) world" where
  "get_entry r w =
     w\<lparr>instance_locks := insert r (instance_locks w),
       instances := (instances w)(r \<mapsto> members_of r w)\<rparr>"

subsection \<open>Reachable shared states\<close>

text \<open>
  The shared states that arise from the empty one by calls of \<^verbatim>\<open>Session.get\<close> (with any
  arguments and any environment, however the call ends) and by method calls on sessions.
  Sessions are created by \<^verbatim>\<open>get\<close> only.
\<close>

inductive reachable :: "('r \<Rightarrow> 'e \<Rightarrow> 'e \<Rightarrow> bool) \<Rightarrow> ('e, 'r) world \<Rightarrow> bool"
  for cmp :: "'r \<Rightarrow> 'e \<Rightarrow> 'e \<Rightarrow> bool" where
  reach_init: "reachable cmp init_world"
| reach_op: "reachable cmp w \<Longrightarrow> reachable cmp (run_op w c)"
| reach_get: "reachable cmp w \<Longrightarrow>
    reachable cmp (snd (get cmp ev rule_arg wait has_cb k env w))"

subsection \<open>Waking a suspended session\<close>

text \<open>The test of the first loop of \<^verbatim>\<open>get\<close> on the session at index \<open>i\<close>.\<close>

definition matches_suspended ::
  "('r \<Rightarrow> 'e \<Rightarrow> 'e \<Rightarrow> bool) \<Rightarrow> 'r \<Rightarrow> 'e \<Rightarrow> ('e, 'r) world \<Rightarrow> nat \<Rightarrow> bool" where
  "matches_suspended cmp r ev w i \<longleftrightarrow>
     state (sessions w ! i) = SuspendSessionState \<and> cmp r (event (sessions w ! i)) ev"

text \<open>
  An example rule for the concrete runs below: events are pairs of a user id and a text,
  and two events belong together when they have the same user id.
\<close>

definition same_user :: "nat \<Rightarrow> nat \<times> string \<Rightarrow> nat \<times> string \<Rightarrow> bool" where
  "same_user r e1 e2 \<longleftrightarrow> fst e1 = fst e2"

text \<open>A shared state with one Suspended session of rule 0.\<close>

definition suspended_world :: "(nat \<times> string, nat) world" where
  "suspended_world =
     \<lparr>sessions = [\<lparr>event = (7, ''hello''), rule = Some 0, keep = False,
                   state = SuspendSessionState, notified = [refresh_cond]\<rparr>],
      instances = (\<lambda>r. if r = 0 then Some [0] else None),
      instance_locks = {0}, nowait_cb_calls = 0\<rparr>"

section \<open>Dependency injection (\_di.py)\<close>

subsection \<open>Values, hints and the typing helpers\<close>

text \<open>
  The injector works on Python objects (type \<open>'v\<close>), their classes (\<open>'t\<close>) and type hints
  (\<open>'h\<close>). The helpers \<^verbatim>\<open>is_type\<close> and \<^verbatim>\<open>is_subhint\<close> come from the module \<^verbatim>\<open>typ\<close> and the
  context stacks from the module \<^verbatim>\<open>_ctx\<close>; what they do is not fixed by the files
  modelled here, so they are parameters of the model, collected in one record together with the built-ins
  \<^verbatim>\<open>type\<close> and \<^verbatim>\<open>isinstance\<close>:
  \<^item> \<open>ctx_type c\<close> is the hint that the stack \<open>c\<close> reports (\<^verbatim>\<open>LoggerCtx().get_type()\<close>,
    \<^verbatim>\<open>SessionCtx().get_rule_type() | None\<close>, ...);
  \<^item> \<open>ctx_get c\<close> is what fetching from the stack \<open>c\<close> gives now, \<open>None\<close> when the fetch
    raises;
  \<^item> \<open>annotated_args h\<close> is \<open>None\<close> when \<open>h\<close> is not an \<^verbatim>\<open>Annotated\<close> hint and otherwise
    the metadata listed after the first argument;
  \<^item> \<open>void\<close> is the marker \<^verbatim>\<open>VoidType.VOID\<close>.
\<close>

datatype ctx_source = LoggerSrc | StoreSrc | RuleSrc | BotSrc | AdapterSrc | EventSrc

text \<open>
  The metadata classes \<^verbatim>\<open>Exclude\<close> and \<^verbatim>\<open>CustomLogger\<close> (the latter with the value its
  getter returns), and any other object used as metadata.
\<close>

datatype ('v, 't) metadata = Exclude "'t list" | CustomLogger 'v | OtherMetadata

record ('v, 't, 'h) di_env =
  type_of :: "'v \<Rightarrow> 't"
  isinstance :: "'v \<Rightarrow> 't \<Rightarrow> bool"
  is_type :: "'v \<Rightarrow> 'h \<Rightarrow> bool"
  is_subhint :: "'h \<Rightarrow> 'h \<Rightarrow> bool"
  annotated_args :: "'h \<Rightarrow> ('v, 't) metadata list option"
  ctx_type :: "ctx_source \<Rightarrow> 'h"
  ctx_get :: "ctx_source \<Rightarrow> 'v option"
  void :: 'v

text \<open>
  The errors: \<^verbatim>\<open>DependNotMatched\<close> with its fields \<^verbatim>\<open>func_name\<close>, \<^verbatim>\<open>arg_name\<close>,
  \<^verbatim>\<open>real_type\<close> and \<^verbatim>\<open>hint\<close> (the message text is left out), \<^verbatim>\<open>DependInitError\<close>, and
  what a failing fetch from a context stack raises.
\<close>

datatype ('t, 'h) di_error =
  DependNotMatched string string 't 'h
| DependInitError
| ContextFetchError

subsection \<open>Depends\<close>

text \<open>
  A \<^verbatim>\<open>Depends\<close> object has either a getter or a reference to another \<^verbatim>\<open>Depends\<close>, an
  optional \<^verbatim>\<open>sub_getter\<close>, and a lock exactly when it was created with \<^verbatim>\<open>cache=True\<close>.
  These never change after construction and are kept in the datatype, together with the
  identity of the object (dictionaries are keyed by identity). A getter is a user
  function that need not return the same value twice: it is modelled by the results of
  its successive calls, \<open>g n\<close> for the call after \<open>n\<close> earlier ones, each a value or an
  error.

  What changes is kept apart, indexed by identity: the field \<^verbatim>\<open>_cached\<close>, and for the
  statements below the number of calls made to the getter so far and the number of times
  the body of an injected callback was entered.
\<close>

datatype ('v, 't, 'h) depends =
  Depends nat "('v, 't, 'h) dep_source" "('v \<Rightarrow> ('t, 'h) di_error + 'v) option" bool
and ('v, 't, 'h) dep_source =
  Getter "nat \<Rightarrow> ('t, 'h) di_error + 'v"
| Ref "('v, 't, 'h) depends"

fun dep_id :: "('v, 't, 'h) depends \<Rightarrow> nat" where
  "dep_id (Depends i src sub c) = i"

fun dep_cache :: "('v, 't, 'h) depends \<Rightarrow> bool" where
  "dep_cache (Depends i src sub c) = c"

record 'v di_state =
  cached :: "nat \<Rightarrow> 'v"
  getter_calls :: "nat \<Rightarrow> nat"
  body_calls :: nat

definition new_di_state :: "'v \<Rightarrow> 'v di_state" where
  "new_di_state vd = \<lparr>cached = (\<lambda>i. vd), getter_calls = (\<lambda>i. 0), body_calls = 0\<rparr>"

type_synonym 'v dep_scope = "nat \<Rightarrow> 'v option"

text \<open>\<^verbatim>\<open>sub_getter\<close> applied to the value, when there is one.\<close>

definition apply_sub_getter ::
  "('v \<Rightarrow> ('t, 'h) di_error + 'v) option \<Rightarrow> 'v \<Rightarrow> ('t, 'h) di_error + 'v" where
  "apply_sub_getter sub val = (case sub of None \<Rightarrow> Inr val | Some f \<Rightarrow> f val)"

text \<open>
  \<^verbatim>\<open>Depends._get\<close> and \<^verbatim>\<open>Depends.fulfill\<close>. Both return the value or the error together
  with the scope dictionary and the state as they leave them. A task that finds
  \<^verbatim>\<open>_cached\<close> empty takes the lock and tests \<^verbatim>\<open>_cached\<close> again before it calls
  \<^verbatim>\<open>_get\<close>, and holds the lock until \<^verbatim>\<open>_cached\<close> is assigned; so the calls of
  \<^verbatim>\<open>fulfill\<close> on a cached object take effect one after the other, which is how they
  are modelled.
\<close>

fun Depends_get ::
    "'v \<Rightarrow> ('v, 't, 'h) depends \<Rightarrow> 'v dep_scope \<Rightarrow> 'v di_state \<Rightarrow>
       (('t, 'h) di_error + 'v) \<times> 'v dep_scope \<times> 'v di_state"
  and Depends_fulfill ::
    "'v \<Rightarrow> ('v, 't, 'h) depends \<Rightarrow> 'v dep_scope \<Rightarrow> 'v di_state \<Rightarrow>
       (('t, 'h) di_error + 'v) \<times> 'v dep_scope \<times> 'v di_state" where
  "Depends_get vd (Depends i (Getter g) sub c) scope st =
     (let st1 = st\<lparr>getter_calls := (getter_calls st)(i := Suc (getter_calls st i))\<rparr>
      in case g (getter_calls st i) of
           Inl err \<Rightarrow> (Inl err, scope, st1)
         | Inr val \<Rightarrow> (apply_sub_getter sub val, scope, st1))"
| "Depends_get vd (Depends i (Ref ref) sub c) scope st =
     (let val = (case scope (dep_id ref) of None \<Rightarrow> vd | Some v \<Rightarrow> v)
      in if val = vd
         then (case Depends_fulfill vd ref scope st of
                 (Inl err, scope1, st1) \<Rightarrow> (Inl err, scope1, st1)
               | (Inr val1, scope1, st1) \<Rightarrow> (apply_sub_getter sub val1, scope1, st1))
         else (apply_sub_getter sub val, scope, st))"
| "Depends_fulfill vd (Depends i src sub c) scope st =
     (if \<not> c
      then (case Depends_get vd (Depends i src sub c) scope st of
              (Inl err, scope1, st1) \<Rightarrow> (Inl err, scope1, st1)
            | (Inr val, scope1, st1) \<Rightarrow> (Inr val, scope1(i \<mapsto> val), st1))
      else if cached st i \<noteq> vd
      then (Inr (cached st i), scope(i \<mapsto> cached st i), st)
      else (case Depends_get vd (Depends i src sub c) scope st of
              (Inl err, scope1, st1) \<Rightarrow> (Inl err, scope1, st1)
            | (Inr val, scope1, st1) \<Rightarrow>
                (Inr val, scope1(i \<mapsto> val), st1\<lparr>cached := (cached st1)(i := val)\<rparr>)))"

subsection \<open>AutoDepends\<close>

text \<open>
  An \<^verbatim>\<open>AutoDepends\<close> is a \<^verbatim>\<open>Depends\<close> without cache and without \<^verbatim>\<open>sub_getter\<close> whose
  getter fetches from one of the context stacks. It also keeps the hint, the qualified
  name of the function, the name of the parameter and the metadata of the hint.
\<close>

record ('v, 't, 'h) auto_depends =
  ad_id :: nat
  ad_hint :: 'h
  ad_func :: string
  ad_arg_name :: string
  ad_metadata :: "('v, 't) metadata option"
  ad_source :: ctx_source

fun is_CustomLogger :: "('v, 't) metadata option \<Rightarrow> bool" where
  "is_CustomLogger (Some (CustomLogger g)) = True"
| "is_CustomLogger m = False"

fun is_Exclude :: "('v, 't) metadata option \<Rightarrow> bool" where
  "is_Exclude (Some (Exclude ts)) = True"
| "is_Exclude m = False"

text \<open>The chain of tests in \<^verbatim>\<open>AutoDepends.__init__\<close> that picks the getter.\<close>

definition pick_source ::
  "('v, 't, 'h) di_env \<Rightarrow> ('v, 't) metadata option \<Rightarrow> 'h \<Rightarrow> ctx_source option" where
  "pick_source env md hint =
     (if is_CustomLogger md then Some LoggerSrc
      else if is_subhint env hint (ctx_type env LoggerSrc) then Some LoggerSrc
      else if is_subhint env hint (ctx_type env StoreSrc) then Some StoreSrc
      else if is_subhint env hint (ctx_type env RuleSrc) then Some RuleSrc
      else if is_subhint env hint (ctx_type env BotSrc) then Some BotSrc
      else if is_subhint env hint (ctx_type env AdapterSrc) then Some AdapterSrc
      else if is_subhint env hint (ctx_type env EventSrc) then Some EventSrc
      else None)"

definition AutoDepends_init ::
  "('v, 't, 'h) di_env \<Rightarrow> nat \<Rightarrow> string \<Rightarrow> string \<Rightarrow> 'h \<Rightarrow>
     ('t, 'h) di_error + ('v, 't, 'h) auto_depends" where
  "AutoDepends_init env i func name hint =
     (case (case annotated_args env hint of
              None \<Rightarrow> Inr None
            | Some mds \<Rightarrow> (if length mds = 1 then Inr (Some (hd mds)) else Inl DependInitError)) of
        Inl err \<Rightarrow> Inl err
      | Inr md \<Rightarrow>
          (case pick_source env md hint of
             None \<Rightarrow> Inl DependInitError
           | Some src \<Rightarrow>
               Inr \<lparr>ad_id = i, ad_hint = hint, ad_func = func, ad_arg_name = name,
                    ad_metadata = md, ad_source = src\<rparr>))"

definition get_unmatch_exc :: "('v, 't, 'h) auto_depends \<Rightarrow> 't \<Rightarrow> ('t, 'h) di_error" where
  "get_unmatch_exc ad real_type =
     DependNotMatched (ad_func ad) (ad_arg_name ad) real_type (ad_hint ad)"

text \<open>The \<^verbatim>\<open>Depends\<close> part of the object, as \<^verbatim>\<open>super().__init__\<close> sets it up.\<close>

definition auto_base ::
  "('v, 't, 'h) di_env \<Rightarrow> ('v, 't, 'h) auto_depends \<Rightarrow> ('v, 't, 'h) depends" where
  "auto_base env ad =
     Depends (ad_id ad)
       (Getter (\<lambda>n. case ctx_get env (ad_source ad) of
                       None \<Rightarrow> Inl ContextFetchError
                     | Some val \<Rightarrow> Inr val))
       None False"

text \<open>The checks of \<^verbatim>\<open>AutoDepends.fulfill\<close> on the fetched value.\<close>

definition check_fetched ::
  "('v, 't, 'h) di_env \<Rightarrow> ('v, 't, 'h) auto_depends \<Rightarrow> 'v \<Rightarrow> ('t, 'h) di_error + 'v" where
  "check_fetched env ad val =
     (case ad_metadata ad of
        Some (Exclude ts) \<Rightarrow>
          if \<exists>t \<in> set ts. isinstance env val t
          then Inl (get_unmatch_exc ad (type_of env val))
          else if is_type env val (ad_hint ad) then Inr val
          else Inl (get_unmatch_exc ad (type_of env val))
      | Some (CustomLogger g) \<Rightarrow>
          if \<not> is_type env val (ad_hint ad) then Inr g else Inr val
      | _ \<Rightarrow>
          if is_subhint env (ad_hint ad) (ctx_type env LoggerSrc) then Inr val
          else if is_type env val (ad_hint ad) then Inr val
          else Inl (get_unmatch_exc ad (type_of env val)))"

definition AutoDepends_fulfill ::
  "('v, 't, 'h) di_env \<Rightarrow> ('v, 't, 'h) auto_depends \<Rightarrow> 'v dep_scope \<Rightarrow> 'v di_state \<Rightarrow>
     (('t, 'h) di_error + 'v) \<times> 'v dep_scope \<times> 'v di_state" where
  "AutoDepends_fulfill env ad scope st =
     (case Depends_fulfill (void env) (auto_base env ad) scope st of
        (Inl err, scope1, st1) \<Rightarrow> (Inl err, scope1, st1)
      | (Inr val, scope1, st1) \<Rightarrow> (check_fetched env ad val, scope1, st1))"

subsection \<open>The injecting wrapper\<close>

text \<open>
  The arguments of a call after binding and defaults: plain values, \<^verbatim>\<open>Depends\<close> objects
  and \<^verbatim>\<open>AutoDepends\<close> objects, positional ones first, then the keyword ones. The wrapper
  of \<^verbatim>\<open>inject_deps\<close> replaces each object by what its \<^verbatim>\<open>fulfill\<close> returns, all with one
  new scope dictionary, and then calls the function. Binding the arguments to the
  signature (\<^verbatim>\<open>_get_bound_args\<close>) is left out.
\<close>

datatype ('v, 't, 'h) arg =
  Plain 'v
| Dep "('v, 't, 'h) depends"
| AutoDep "('v, 't, 'h) auto_depends"

fun fulfill_arg ::
  "('v, 't, 'h) di_env \<Rightarrow> ('v, 't, 'h) arg \<Rightarrow> 'v dep_scope \<Rightarrow> 'v di_state \<Rightarrow>
     (('t, 'h) di_error + 'v) \<times> 'v dep_scope \<times> 'v di_state" where
  "fulfill_arg env (Plain val) scope st = (Inr val, scope, st)"
| "fulfill_arg env (Dep d) scope st = Depends_fulfill (void env) d scope st"
| "fulfill_arg env (AutoDep ad) scope st = AutoDepends_fulfill env ad scope st"

fun fulfill_args ::
  "('v, 't, 'h) di_env \<Rightarrow> ('v, 't, 'h) arg list \<Rightarrow> 'v dep_scope \<Rightarrow> 'v di_state \<Rightarrow>
     (('t, 'h) di_error + 'v list) \<times> 'v dep_scope \<times> 'v di_state" where
  "fulfill_args env [] scope st = (Inr [], scope, st)"
| "fulfill_args env (a # as) scope st =
     (case fulfill_arg env a scope st of
        (Inl err, scope1, st1) \<Rightarrow> (Inl err, scope1, st1)
      | (Inr val, scope1, st1) \<Rightarrow>
          (case fulfill_args env as scope1 st1 of
             (Inl err, scope2, st2) \<Rightarrow> (Inl err, scope2, st2)
           | (Inr vals, scope2, st2) \<Rightarrow> (Inr (val # vals), scope2, st2)))"

definition wrapped ::
  "('v, 't, 'h) di_env \<Rightarrow> ('v list \<Rightarrow> 'r) \<Rightarrow> ('v, 't, 'h) arg list \<Rightarrow> 'v di_state \<Rightarrow>
     (('t, 'h) di_error + 'r) \<times> 'v di_state" where
  "wrapped env injected args st =
     (case fulfill_args env args (\<lambda>i. None) st of
        (Inl err, scope, st1) \<Rightarrow> (Inl err, st1)
      | (Inr vals, scope, st1) \<Rightarrow>
          (Inr (injected vals), st1\<lparr>body_calls := Suc (body_calls st1)\<rparr>))"

subsection \<open>An example universe\<close>

text \<open>
  For the concrete runs below: a value is a class name with a content, a hint is a class
  name, alone or annotated with one metadata object, and the class hierarchy has two
  kinds of events below \<^verbatim>\<open>Event\<close> and two kinds of loggers below \<^verbatim>\<open>Logger\<close>. The logger
  stack holds a console logger, the event is a notice event.
\<close>

type_synonym ex_value = "string \<times> string"

datatype ex_hint = Cls string | Ann string "(ex_value, string) metadata"

fun ex_base :: "ex_hint \<Rightarrow> string" where
  "ex_base (Cls c) = c"
| "ex_base (Ann c md) = c"

definition ex_subclass :: "string \<Rightarrow> string \<Rightarrow> bool" where
  "ex_subclass c c' \<longleftrightarrow>
     c = c' \<or>
     (c, c') \<in> set [(''MessageEvent'', ''Event''), (''NoticeEvent'', ''Event''),
                   (''FileLogger'', ''Logger''), (''ConsoleLogger'', ''Logger'')]"

definition example_env :: "(ex_value, string, ex_hint) di_env" where
  "example_env =
     \<lparr>type_of = fst,
      isinstance = (\<lambda>val t. ex_subclass (fst val) t),
      is_type = (\<lambda>val h. ex_subclass (fst val) (ex_base h)),
      is_subhint = (\<lambda>h h'. ex_subclass (ex_base h) (ex_base h')),
      annotated_args = (\<lambda>h. case h of Cls c \<Rightarrow> None | Ann c md \<Rightarrow> Some [md]),
      ctx_type = (\<lambda>c. case c of LoggerSrc \<Rightarrow> Cls ''Logger'' | StoreSrc \<Rightarrow> Cls ''StoreT''
                   | RuleSrc \<Rightarrow> Cls ''Rule'' | BotSrc \<Rightarrow> Cls ''Bot''
                   | AdapterSrc \<Rightarrow> Cls ''Adapter'' | EventSrc \<Rightarrow> Cls ''Event''),
      ctx_get = (\<lambda>c. case c of LoggerSrc \<Rightarrow> Some (''ConsoleLogger'', ''stdout'')
                   | EventSrc \<Rightarrow> Some (''NoticeEvent'', ''user 7 joined'')
                   | _ \<Rightarrow> None),
      void = (''VoidType'', ''VOID'')\<rparr>"

subsection \<open>When DependNotMatched is raised\<close>

text \<open>
  The condition under which \<^verbatim>\<open>AutoDepends.fulfill\<close> raises for a fetched value: the value
  is an instance of a type listed in an \<^verbatim>\<open>Exclude\<close> tag, or it does not satisfy the hint
  and the parameter is neither tagged \<^verbatim>\<open>CustomLogger\<close> nor, without an \<^verbatim>\<open>Exclude\<close> tag,
  annotated as a logger.
\<close>

definition unmatched ::
  "('v, 't, 'h) di_env \<Rightarrow> ('v, 't, 'h) auto_depends \<Rightarrow> 'v \<Rightarrow> bool" where
  "unmatched env ad val \<longleftrightarrow>
     (\<exists>ts. ad_metadata ad = Some (Exclude ts) \<and> (\<exists>t \<in> set ts. isinstance env val t)) \<or>
     (\<not> is_type env val (ad_hint ad) \<and> \<not> is_CustomLogger (ad_metadata ad) \<and>
        (is_Exclude (ad_metadata ad) \<or>
         \<not> is_subhint env (ad_hint ad) (ctx_type env LoggerSrc)))"

subsection \<open>Cached Depends\<close>

text \<open>
  One \<^verbatim>\<open>Depends\<close> object fulfilled again and again, once for each scope dictionary of
  the list (one dictionary per resolution), in this order.
\<close>

fun fulfill_seq ::
  "'v \<Rightarrow> ('v, 't, 'h) depends \<Rightarrow> 'v dep_scope list \<Rightarrow> 'v di_state \<Rightarrow>
     (('t, 'h) di_error + 'v) list \<times> 'v di_state" where
  "fulfill_seq vd d [] st = ([], st)"
| "fulfill_seq vd d (scope # scopes) st =
     (case Depends_fulfill vd d scope st of
        (r, scope1, st1) \<Rightarrow>
          (case fulfill_seq vd d scopes st1 of (rs, st2) \<Rightarrow> (r # rs, st2)))"

text \<open>A getter that returns something else at every call: its call number as a text.\<close>

definition counting_getter :: "nat \<Rightarrow> (string, ex_hint) di_error + ex_value" where
  "counting_getter n = Inr (''str'', replicate n CHR ''x'')"

text \<open>A getter that returns the marker for no value at its first call, and a text after that.\<close>

definition void_first_getter :: "nat \<Rightarrow> (string, ex_hint) di_error + ex_value" where
  "void_first_getter n =
     (if n = 0 then Inr (''VoidType'', ''VOID'') else Inr (''str'', ''ready''))"

subsection \<open>Concurrent fulfillments of a cached Depends\<close>

text \<open>
  Several tasks inside \<^verbatim>\<open>fulfill\<close> of one cached \<^verbatim>\<open>Depends\<close> object at the same time.
  A task is at the start; or it has found \<^verbatim>\<open>_cached\<close> empty and waits for the lock; or
  it holds the lock and waits for the getter, called as call number \<open>n\<close>; or it has
  returned a value. Testing \<^verbatim>\<open>_cached\<close>, taking the free lock and calling the getter
  happen without another task in between, and so do assigning \<^verbatim>\<open>_cached\<close>, releasing
  the lock and returning. The model records which task holds the lock.
\<close>

datatype 'v fulfill_pc = AtStart | AtLock | InGet nat | Finished 'v

record 'v cache_conf =
  cf_cached :: 'v
  cf_lock :: "nat option"
  cf_calls :: nat
  cf_tasks :: "'v fulfill_pc list"

definition set_task :: "'v cache_conf \<Rightarrow> nat \<Rightarrow> 'v fulfill_pc \<Rightarrow> 'v cache_conf" where
  "set_task c t pc = c\<lparr>cf_tasks := (cf_tasks c)[t := pc]\<rparr>"

inductive cache_step :: "'v \<Rightarrow> (nat \<Rightarrow> 'v) \<Rightarrow> 'v cache_conf \<Rightarrow> 'v cache_conf \<Rightarrow> bool"
  for vd :: 'v and g :: "nat \<Rightarrow> 'v" where
  hit: "t < length (cf_tasks c) \<Longrightarrow> cf_tasks c ! t = AtStart \<Longrightarrow> cf_cached c \<noteq> vd \<Longrightarrow>
          cache_step vd g c (set_task c t (Finished (cf_cached c)))"
| miss: "t < length (cf_tasks c) \<Longrightarrow> cf_tasks c ! t = AtStart \<Longrightarrow> cf_cached c = vd \<Longrightarrow>
          cache_step vd g c (set_task c t AtLock)"
| locked_call:
    "t < length (cf_tasks c) \<Longrightarrow> cf_tasks c ! t = AtLock \<Longrightarrow> cf_lock c = None \<Longrightarrow>
     cf_cached c = vd \<Longrightarrow>
       cache_step vd g c
         (set_task (c\<lparr>cf_lock := Some t, cf_calls := Suc (cf_calls c)\<rparr>) t (InGet (cf_calls c)))"
| locked_hit:
    "t < length (cf_tasks c) \<Longrightarrow> cf_tasks c ! t = AtLock \<Longrightarrow> cf_lock c = None \<Longrightarrow>
     cf_cached c \<noteq> vd \<Longrightarrow>
       cache_step vd g c (set_task c t (Finished (cf_cached c)))"
| returned:
    "t < length (cf_tasks c) \<Longrightarrow> cf_tasks c ! t = InGet n \<Longrightarrow>
       cache_step vd g c (set_task (c\<lparr>cf_cached := g n, cf_lock := None\<rparr>) t (Finished (g n)))"

inductive cache_run :: "'v \<Rightarrow> (nat \<Rightarrow> 'v) \<Rightarrow> nat \<Rightarrow> 'v cache_conf \<Rightarrow> bool"
  for vd :: 'v and g :: "nat \<Rightarrow> 'v" and k :: nat where
  start: "cache_run vd g k
            \<lparr>cf_cached = vd, cf_lock = None, cf_calls = 0, cf_tasks = replicate k AtStart\<rparr>"
| step: "cache_run vd g k c \<Longrightarrow> cache_step vd g c c' \<Longrightarrow> cache_run vd g k c'"

text \<open>What holds in every configuration of a run, as long as the first call of the
  getter returns a value.\<close>

definition cache_inv :: "'v \<Rightarrow> (nat \<Rightarrow> 'v) \<Rightarrow> 'v cache_conf \<Rightarrow> bool" where
  "cache_inv vd g c \<longleftrightarrow>
     (\<forall>t n. t < length (cf_tasks c) \<and> cf_tasks c ! t = InGet n \<longrightarrow> cf_lock c = Some t \<and> n = 0) \<and>
     (\<forall>t. cf_lock c = Some t \<longrightarrow> cf_cached c = vd \<and> cf_calls c = 1) \<and>
     (cf_lock c = None \<longrightarrow>
        (cf_cached c = vd \<and> cf_calls c = 0) \<or> (cf_cached c = g 0 \<and> cf_calls c = 1)) \<and>
     (\<forall>t v. t < length (cf_tasks c) \<and> cf_tasks c ! t = Finished v \<longrightarrow>
        v = g 0 \<and> cf_cached c = g 0 \<and> cf_calls c = 1)"

chapter \<open>Properties\<close>

section \<open>Properties: Twin events (utils.py, AsyncTwinEvent and get\_twin\_event)\<close>

subsection \<open>The twin invariant\<close>

lemma get_twin_event_linked:
  "twin_linked (snd (get_twin_event st)) (length st) (Suc (length st))"
  by (simp add: get_twin_event_def twin_linked_def bind_def is_set_def Event_set_def
      Event_clear_def new_twin_event_def Let_def nth_append)

lemma twin_set_linked:
  assumes "twin_linked st a b"
  shows "twin_linked (twin_set st a) a b" and "twin_linked (twin_set st b) a b"
  using assms
  by (auto simp: twin_linked_def twin_set_def is_set_def Event_set_def Event_clear_def Let_def)

lemma twin_clear_linked:
  assumes "twin_linked st a b"
  shows "twin_linked (twin_clear st a) a b" and "twin_linked (twin_clear st b) a b"
  using assms
  by (auto simp: twin_linked_def twin_clear_def is_set_def Event_set_def Event_clear_def Let_def)

lemma twin_step_linked:
  "twin_linked st a b \<Longrightarrow> twin_linked (twin_step (a, b) st x) a b"
proof (cases x)
  case (Set s)
  assume "twin_linked st a b"
  with Set show ?thesis by (cases s) (simp_all add: twin_set_linked)
next
  case (Clear s)
  assume "twin_linked st a b"
  with Clear show ?thesis by (cases s) (simp_all add: twin_clear_linked)
qed

lemma twin_run_linked:
  "twin_linked st a b \<Longrightarrow> twin_linked (twin_run (a, b) st ops) a b"
  unfolding twin_run_def
  by (induction ops arbitrary: st) (simp_all add: twin_step_linked)

text \<open>
  Claim C6. For the pair returned by \<^verbatim>\<open>get_twin_event\<close>, exactly one of the two events
  is set after construction (the first is unset, the second set), and after any sequence
  of \<^verbatim>\<open>set()\<close> and \<^verbatim>\<open>clear()\<close> calls on either of them exactly one of the two is set.
\<close>

theorem twin_event_invariant:
  "fst (get_twin_event st) = (length st, Suc (length st)) \<and>
   \<not> is_set (snd (get_twin_event st)) (length st) \<and>
   is_set (snd (get_twin_event st)) (Suc (length st)) \<and>
   is_set (twin_run (fst (get_twin_event st)) (snd (get_twin_event st)) ops) (length st)
     \<noteq> is_set (twin_run (fst (get_twin_event st)) (snd (get_twin_event st)) ops) (Suc (length st))"
proof -
  have p: "fst (get_twin_event st) = (length st, Suc (length st))"
    by (simp add: get_twin_event_def Let_def)
  have a: "\<not> is_set (snd (get_twin_event st)) (length st)"
    by (simp add: get_twin_event_def bind_def is_set_def Event_set_def
        Event_clear_def new_twin_event_def Let_def nth_append)
  have b: "is_set (snd (get_twin_event st)) (Suc (length st))"
    by (simp add: get_twin_event_def bind_def is_set_def Event_set_def
        Event_clear_def new_twin_event_def Let_def nth_append)
  have "twin_linked (twin_run (length st, Suc (length st)) (snd (get_twin_event st)) ops)
          (length st) (Suc (length st))"
    by (rule twin_run_linked [OF get_twin_event_linked])
  then have r: "is_set (twin_run (length st, Suc (length st)) (snd (get_twin_event st)) ops) (length st)
     \<noteq> is_set (twin_run (length st, Suc (length st)) (snd (get_twin_event st)) ops) (Suc (length st))"
    by (simp add: twin_linked_def)
  show ?thesis using p a b r by simp
qed

section \<open>Properties: Decorator configuration (utils.py: async\_guard, cooldown, speedlimit)\<close>

subsection \<open>Which misconfigurations are refused\<close>

text \<open>
  Claim C7, as stated, includes that constructing \<^verbatim>\<open>cooldown\<close> with a non-positive
  interval raises the validation error. The source's \<^verbatim>\<open>cooldown\<close> has no check: with
  interval 0 (and with a negative one) it returns the decorator.
\<close>

theorem cooldown_nonpositive_interval_accepted:
  "cooldown (None :: unit option) (None :: unit option) 0 100 =
     Inr \<lparr>cd_busy_callback = None, cd_cd_callback = None, cd_interval = 0,
          cd_alock_locked = False, cd_pre_finish_t = 99\<rparr> \<and>
   cooldown (None :: unit option) (None :: unit option) (- 5) 100 =
     Inr \<lparr>cd_busy_callback = None, cd_cd_callback = None, cd_interval = - 5,
          cd_alock_locked = False, cd_pre_finish_t = 104\<rparr>"
  by (simp add: cooldown_def)

text \<open>
  Claim C7, amended. \<^verbatim>\<open>speedlimit\<close> with \<open>limit \<le> 0\<close> or with \<open>duration \<le> 0\<close> raises
  the validation error (and with both positive it does not); \<^verbatim>\<open>async_guard\<close> with a
  non-callable first argument raises the validation error; \<^verbatim>\<open>cooldown\<close> validates
  nothing: it returns the decorator for every interval.
\<close>

theorem decorator_validation:
  "(limit \<le> 0 \<or> duration \<le> 0 \<longleftrightarrow>
      (\<exists>c. speedlimit callback limit duration now = Inl (ValidateError c))) \<and>
   (limit \<le> 0 \<longrightarrow> speedlimit callback limit duration now = Inl (ValidateError BadLimit)) \<and>
   (0 < limit \<and> duration \<le> 0 \<longrightarrow>
      speedlimit callback limit duration now = Inl (ValidateError BadDuration)) \<and>
   async_guard (NotCallable :: ('x, 'a) pyobj) args = Inl (ValidateError NotCallableObject) \<and>
   (\<forall>e. cooldown busy_callback cd_callback interval now \<noteq> Inl e)"
proof -
  have sl: "limit \<le> 0 \<or> duration \<le> 0 \<longleftrightarrow>
      (\<exists>c. speedlimit callback limit duration now = Inl (ValidateError c))"
    by (simp add: speedlimit_def)
  have l: "limit \<le> 0 \<longrightarrow> speedlimit callback limit duration now = Inl (ValidateError BadLimit)"
    by (simp add: speedlimit_def)
  have d: "0 < limit \<and> duration \<le> 0 \<longrightarrow>
      speedlimit callback limit duration now = Inl (ValidateError BadDuration)"
    by (simp add: speedlimit_def)
  have g: "async_guard (NotCallable :: ('x, 'a) pyobj) args = Inl (ValidateError NotCallableObject)"
    by (simp add: async_guard_def)
  have c: "\<forall>e. cooldown busy_callback cd_callback interval now \<noteq> Inl e"
    by (simp add: cooldown_def)
  from sl l d g c show ?thesis by blast
qed

theorem decorator_validation_witness:
  "speedlimit (None :: unit option) 0 60 100 = Inl (ValidateError BadLimit) \<and>
   speedlimit (None :: unit option) 60 (- 1) 100 = Inl (ValidateError BadDuration) \<and>
   speedlimit (None :: unit option) 60 60 100 =
     Inr \<lparr>sl_callback = None, sl_limit = 60, sl_duration = 60, sl_called_num = 0,
          sl_min_start = 100\<rparr> \<and>
   async_guard (NotCallable :: (unit, unit) pyobj) () = Inl (ValidateError NotCallableObject)"
  using decorator_validation [of 0 60 "None :: unit option" 100 "()" None None 0]
    decorator_validation [of 60 "- 1" "None :: unit option" 100 "()" None None 0]
  by (simp add: speedlimit_def async_guard_def)

section \<open>Properties: Sessions (session/base.py)\<close>

subsection \<open>The transition table\<close>

lemma refused_ops:
  "state s \<noteq> SpareSessionState \<Longrightarrow> work s ev = Inl (SessionStateError (Unsupported ''work''))"
  "state s \<noteq> WorkingSessionState \<Longrightarrow> rest s = Inl (SessionStateError (Unsupported ''rest''))"
  "state s \<noteq> WorkingSessionState \<Longrightarrow>
     suspend_enter s = Inl (SessionStateError (Unsupported ''suspend''))"
  "state s \<noteq> SuspendSessionState \<Longrightarrow>
     wakeup s ev = Inl (SessionStateError (Unsupported ''wakeup''))"
  "state s \<noteq> WorkingSessionState \<Longrightarrow>
     expire s = Inl (SessionStateError (Unsupported ''expire''))"
  by (cases "state s"; simp add: work_def rest_def suspend_enter_def wakeup_def expire_def
      SessionState_refuse_def)+

lemma suspend_refused:
  "state s \<noteq> WorkingSessionState \<Longrightarrow>
     suspend s timeout woken = Some (Inl (SessionStateError (Unsupported ''suspend'')))"
  by (simp add: suspend_def refused_ops(3))

lemma legal_ops:
  "state s = SpareSessionState \<Longrightarrow>
     work s ev = Inr (s\<lparr>event := ev, state := WorkingSessionState\<rparr>)"
  "state s = WorkingSessionState \<Longrightarrow> rule s \<noteq> None \<Longrightarrow>
     rest s = Inr (s\<lparr>state := SpareSessionState, notified := notified s @ [refresh_cond]\<rparr>)"
  "state s = WorkingSessionState \<Longrightarrow> rule s \<noteq> None \<Longrightarrow>
     suspend_enter s =
       Inr (s\<lparr>state := SuspendSessionState, notified := notified s @ [refresh_cond]\<rparr>)"
  "state s = SuspendSessionState \<Longrightarrow>
     wakeup s ev = Inr (s\<lparr>event := ev, state := WorkingSessionState,
                           notified := notified s @ [wakeup_cond]\<rparr>)"
  "state s = WorkingSessionState \<Longrightarrow>
     expire s = Inr (s\<lparr>state := ExpireSessionState,
                        notified := notified s @ (if rule s \<noteq> None then [refresh_cond] else [])\<rparr>)"
  by (simp_all add: work_def rest_def suspend_enter_def wakeup_def expire_def
      SpareSessionState_work_def WorkingSessionState_rest_def
      WorkingSessionState_suspend_enter_def SuspendSessionState_wakeup_def
      WorkingSessionState_expire_def to_state_def notify_def)

lemma ruleless_ops:
  "state s = WorkingSessionState \<Longrightarrow> rule s = None \<Longrightarrow>
     rest s = Inl (SessionStateError MissingRule)"
  "state s = WorkingSessionState \<Longrightarrow> rule s = None \<Longrightarrow>
     suspend_enter s = Inl (SessionStateError MissingRule)"
  by (simp_all add: rest_def suspend_enter_def WorkingSessionState_rest_def
      WorkingSessionState_suspend_enter_def)

text \<open>
  Claim C2, as stated, includes that \<^verbatim>\<open>expire()\<close> on an Expired session is a no-op that
  does not raise. In the source \<^verbatim>\<open>ExpireSessionState\<close> overrides nothing, so the call
  reaches the base class and raises: a new session, expired once, refuses the second
  \<^verbatim>\<open>expire()\<close>.
\<close>

theorem expire_on_expired_raises:
  "expire (Session_init (1 :: nat) (Some (7 :: nat)) False) =
     Inr \<lparr>event = 1, rule = Some 7, keep = False, state = ExpireSessionState,
          notified = [refresh_cond]\<rparr> \<and>
   expire \<lparr>event = (1 :: nat), rule = Some (7 :: nat), keep = False,
           state = ExpireSessionState, notified = [refresh_cond]\<rparr> =
     Inl (SessionStateError (Unsupported ''expire''))"
  by (simp add: expire_def Session_init_def WorkingSessionState_expire_def to_state_def
      notify_def SessionState_refuse_def)

text \<open>
  Claim C2, amended. The table of the source: from Spare only \<^verbatim>\<open>work\<close> is accepted (it
  binds the event and gives Working); from Working \<^verbatim>\<open>rest\<close> gives Spare and \<^verbatim>\<open>suspend\<close>
  gives Suspended, both notifying \<^verbatim>\<open>refresh_cond\<close> and both refused with
  \<^verbatim>\<open>SessionStateError\<close> when the session has no rule, and \<^verbatim>\<open>expire\<close> gives Expired,
  notifying \<^verbatim>\<open>refresh_cond\<close> when there is a rule; from Suspended only \<^verbatim>\<open>wakeup\<close> is
  accepted (it binds the event, notifies \<^verbatim>\<open>wakeup_cond\<close> and gives Working); from Expired
  nothing is accepted. Every other pair raises \<^verbatim>\<open>SessionStateError\<close>; in particular
  \<^verbatim>\<open>expire\<close> is accepted from Working only and raises from Spare, Suspended and Expired.
\<close>

theorem state_table:
  "(state s = SpareSessionState \<longrightarrow>
      work s ev = Inr (s\<lparr>event := ev, state := WorkingSessionState\<rparr>) \<and>
      rest s = Inl (SessionStateError (Unsupported ''rest'')) \<and>
      suspend s timeout woken = Some (Inl (SessionStateError (Unsupported ''suspend''))) \<and>
      wakeup s ev = Inl (SessionStateError (Unsupported ''wakeup'')) \<and>
      expire s = Inl (SessionStateError (Unsupported ''expire''))) \<and>
   (state s = WorkingSessionState \<longrightarrow>
      work s ev = Inl (SessionStateError (Unsupported ''work'')) \<and>
      wakeup s ev = Inl (SessionStateError (Unsupported ''wakeup'')) \<and>
      expire s = Inr (s\<lparr>state := ExpireSessionState,
                         notified := notified s @ (if rule s \<noteq> None then [refresh_cond] else [])\<rparr>) \<and>
      (rule s \<noteq> None \<longrightarrow>
         rest s = Inr (s\<lparr>state := SpareSessionState,
                          notified := notified s @ [refresh_cond]\<rparr>) \<and>
         suspend s (Some t) None =
           Some (Inr (False, s\<lparr>state := SuspendSessionState,
                                notified := notified s @ [refresh_cond]\<rparr>))) \<and>
      (rule s = None \<longrightarrow>
         rest s = Inl (SessionStateError MissingRule) \<and>
         suspend s timeout woken = Some (Inl (SessionStateError MissingRule)))) \<and>
   (state s = SuspendSessionState \<longrightarrow>
      work s ev = Inl (SessionStateError (Unsupported ''work'')) \<and>
      rest s = Inl (SessionStateError (Unsupported ''rest'')) \<and>
      suspend s timeout woken = Some (Inl (SessionStateError (Unsupported ''suspend''))) \<and>
      wakeup s ev = Inr (s\<lparr>event := ev, state := WorkingSessionState,
                            notified := notified s @ [wakeup_cond]\<rparr>) \<and>
      expire s = Inl (SessionStateError (Unsupported ''expire''))) \<and>
   (state s = ExpireSessionState \<longrightarrow>
      work s ev = Inl (SessionStateError (Unsupported ''work'')) \<and>
      rest s = Inl (SessionStateError (Unsupported ''rest'')) \<and>
      suspend s timeout woken = Some (Inl (SessionStateError (Unsupported ''suspend''))) \<and>
      wakeup s ev = Inl (SessionStateError (Unsupported ''wakeup'')) \<and>
      expire s = Inl (SessionStateError (Unsupported ''expire'')))"
proof -
  have spare: "state s = SpareSessionState \<longrightarrow>
      work s ev = Inr (s\<lparr>event := ev, state := WorkingSessionState\<rparr>) \<and>
      rest s = Inl (SessionStateError (Unsupported ''rest'')) \<and>
      suspend s timeout woken = Some (Inl (SessionStateError (Unsupported ''suspend''))) \<and>
      wakeup s ev = Inl (SessionStateError (Unsupported ''wakeup'')) \<and>
      expire s = Inl (SessionStateError (Unsupported ''expire''))"
    by (simp add: legal_ops(1) refused_ops suspend_refused)
  have working: "state s = WorkingSessionState \<longrightarrow>
      work s ev = Inl (SessionStateError (Unsupported ''work'')) \<and>
      wakeup s ev = Inl (SessionStateError (Unsupported ''wakeup'')) \<and>
      expire s = Inr (s\<lparr>state := ExpireSessionState,
                         notified := notified s @ (if rule s \<noteq> None then [refresh_cond] else [])\<rparr>)"
    by (simp add: legal_ops(5) refused_ops del: not_None_eq)
  have with_rule: "state s = WorkingSessionState \<longrightarrow> rule s \<noteq> None \<longrightarrow>
         rest s = Inr (s\<lparr>state := SpareSessionState,
                          notified := notified s @ [refresh_cond]\<rparr>) \<and>
         suspend s (Some t) None =
           Some (Inr (False, s\<lparr>state := SuspendSessionState,
                                notified := notified s @ [refresh_cond]\<rparr>))"
    by (simp add: legal_ops(2,3) suspend_def del: not_None_eq)
  have no_rule: "state s = WorkingSessionState \<longrightarrow> rule s = None \<longrightarrow>
         rest s = Inl (SessionStateError MissingRule) \<and>
         suspend s timeout woken = Some (Inl (SessionStateError MissingRule))"
    by (simp add: ruleless_ops suspend_def)
  have suspended: "state s = SuspendSessionState \<longrightarrow>
      work s ev = Inl (SessionStateError (Unsupported ''work'')) \<and>
      rest s = Inl (SessionStateError (Unsupported ''rest'')) \<and>
      suspend s timeout woken = Some (Inl (SessionStateError (Unsupported ''suspend''))) \<and>
      wakeup s ev = Inr (s\<lparr>event := ev, state := WorkingSessionState,
                            notified := notified s @ [wakeup_cond]\<rparr>) \<and>
      expire s = Inl (SessionStateError (Unsupported ''expire''))"
    by (simp add: legal_ops(4) refused_ops suspend_refused)
  have expired: "state s = ExpireSessionState \<longrightarrow>
      work s ev = Inl (SessionStateError (Unsupported ''work'')) \<and>
      rest s = Inl (SessionStateError (Unsupported ''rest'')) \<and>
      suspend s timeout woken = Some (Inl (SessionStateError (Unsupported ''suspend''))) \<and>
      wakeup s ev = Inl (SessionStateError (Unsupported ''wakeup'')) \<and>
      expire s = Inl (SessionStateError (Unsupported ''expire''))"
    by (simp add: refused_ops suspend_refused)
  from spare working with_rule no_rule suspended expired show ?thesis by blast
qed

theorem state_table_witness:
  "work \<lparr>event = (1 :: nat), rule = Some (7 :: nat), keep = True, state = SpareSessionState,
         notified = [refresh_cond]\<rparr> 2 =
     Inr \<lparr>event = 2, rule = Some 7, keep = True, state = WorkingSessionState,
          notified = [refresh_cond]\<rparr> \<and>
   expire \<lparr>event = (1 :: nat), rule = Some (7 :: nat), keep = True, state = SpareSessionState,
           notified = [refresh_cond]\<rparr> = Inl (SessionStateError (Unsupported ''expire'')) \<and>
   rest (Session_init (1 :: nat) (Some (7 :: nat)) True) =
     Inr \<lparr>event = 1, rule = Some 7, keep = True, state = SpareSessionState,
          notified = [refresh_cond]\<rparr> \<and>
   rest (Session_init (1 :: nat) (None :: nat option) True) =
     Inl (SessionStateError MissingRule) \<and>
   wakeup \<lparr>event = (1 :: nat), rule = Some (7 :: nat), keep = False,
           state = SuspendSessionState, notified = [refresh_cond]\<rparr> 2 =
     Inr \<lparr>event = 2, rule = Some 7, keep = False, state = WorkingSessionState,
          notified = [refresh_cond, wakeup_cond]\<rparr> \<and>
   work \<lparr>event = (1 :: nat), rule = Some (7 :: nat), keep = False,
         state = ExpireSessionState, notified = [refresh_cond]\<rparr> 2 =
     Inl (SessionStateError (Unsupported ''work''))"
  using
    state_table [where s = "\<lparr>event = (1 :: nat), rule = Some (7 :: nat), keep = True,
      state = SpareSessionState, notified = [refresh_cond]\<rparr>" and ev = 2]
    state_table [where s = "Session_init (1 :: nat) (Some (7 :: nat)) True" and ev = 2]
    state_table [where s = "Session_init (1 :: nat) (None :: nat option) True" and ev = 2]
    state_table [where s = "\<lparr>event = (1 :: nat), rule = Some (7 :: nat), keep = False,
      state = SuspendSessionState, notified = [refresh_cond]\<rparr>" and ev = 2]
    state_table [where s = "\<lparr>event = (1 :: nat), rule = Some (7 :: nat), keep = False,
      state = ExpireSessionState, notified = [refresh_cond]\<rparr>" and ev = 2]
  by (simp add: Session_init_def)

subsection \<open>Suspending\<close>



subsection \<open>Leaving the context region\<close>

text \<open>
  Where the session is Working when the region is left, on whichever path, it goes to
  Spare when \<^verbatim>\<open>keep\<close> is true and it has a rule, and to Expired when \<^verbatim>\<open>keep\<close> is false;
  \<^verbatim>\<open>rest()\<close> refuses a session without a rule. Where the region is left by cancellation
  with the session Suspended, the \<^verbatim>\<open>except\<close> clause wakes the session with its current
  event first, and the \<^verbatim>\<open>finally\<close> clause finds it Working.
\<close>

lemma ctx_exit_working:
  "(k = CancelledExit \<and> state s = SuspendSessionState \<longrightarrow>
      ctx_exit k s =
        ctx_exit NormalExit
          (s\<lparr>state := WorkingSessionState, notified := notified s @ [wakeup_cond]\<rparr>)) \<and>
   (state s = WorkingSessionState \<and> keep s \<and> rule s \<noteq> None \<longrightarrow>
      ctx_exit k s =
        (None, s\<lparr>state := SpareSessionState, notified := notified s @ [refresh_cond]\<rparr>)) \<and>
   (state s = WorkingSessionState \<and> \<not> keep s \<longrightarrow>
      ctx_exit k s =
        (None, s\<lparr>state := ExpireSessionState,
                  notified := notified s @ (if rule s \<noteq> None then [refresh_cond] else [])\<rparr>)) \<and>
   (state s = WorkingSessionState \<and> keep s \<and> rule s = None \<longrightarrow>
      ctx_exit k s = (Some (SessionStateError MissingRule), s))"
proof -
  have cancelled: "k = CancelledExit \<and> state s = SuspendSessionState \<longrightarrow>
      ctx_exit k s =
        ctx_exit NormalExit
          (s\<lparr>state := WorkingSessionState, notified := notified s @ [wakeup_cond]\<rparr>)"
    by (simp add: ctx_exit_def on_state_def legal_ops(4))
  have kept: "state s = WorkingSessionState \<and> keep s \<and> rule s \<noteq> None \<longrightarrow>
      ctx_exit k s =
        (None, s\<lparr>state := SpareSessionState, notified := notified s @ [refresh_cond]\<rparr>)"
    by (simp add: ctx_exit_def on_state_def legal_ops(2) del: not_None_eq)
  have dropped: "state s = WorkingSessionState \<and> \<not> keep s \<longrightarrow>
      ctx_exit k s =
        (None, s\<lparr>state := ExpireSessionState,
                  notified := notified s @ (if rule s \<noteq> None then [refresh_cond] else [])\<rparr>)"
    by (simp add: ctx_exit_def on_state_def legal_ops(5) del: not_None_eq)
  have ruleless: "state s = WorkingSessionState \<and> keep s \<and> rule s = None \<longrightarrow>
      ctx_exit k s = (Some (SessionStateError MissingRule), s)"
    by (simp add: ctx_exit_def on_state_def ruleless_ops(1))
  from cancelled kept dropped ruleless show ?thesis by blast
qed

text \<open>
  Claim C5 has the session go to Expired on every exit path when \<^verbatim>\<open>keep\<close> is false, and
  \<^verbatim>\<open>Session.ctx\<close> attempts just that: its \<^verbatim>\<open>finally\<close> clause calls \<^verbatim>\<open>expire()\<close> however
  the region is left. The call is accepted from Working only, and only the cancellation
  path wakes a Suspended session before it. A handler whose \<^verbatim>\<open>suspend\<close> timed out is left
  with its session Suspended; when it then returns, or raises, \<^verbatim>\<open>expire()\<close> raises
  \<^verbatim>\<open>SessionStateError\<close> out of the region and the session stays Suspended, where the
  claim has it Expired. Left by cancellation, the same session is woken and expires.
\<close>

theorem ctx_exit_after_timed_out_suspend:
  "suspend (Session_init (1 :: nat) (Some (7 :: nat)) False) (Some 5) None =
     Some (Inr (False, \<lparr>event = 1, rule = Some 7, keep = False, state = SuspendSessionState,
                        notified = [refresh_cond]\<rparr>)) \<and>
   ctx_exit NormalExit \<lparr>event = (1 :: nat), rule = Some (7 :: nat), keep = False,
                       state = SuspendSessionState, notified = [refresh_cond]\<rparr> =
     (Some (SessionStateError (Unsupported ''expire'')),
      \<lparr>event = 1, rule = Some 7, keep = False, state = SuspendSessionState,
       notified = [refresh_cond]\<rparr>) \<and>
   ctx_exit ExceptionExit \<lparr>event = (1 :: nat), rule = Some (7 :: nat), keep = False,
                          state = SuspendSessionState, notified = [refresh_cond]\<rparr> =
     (Some (SessionStateError (Unsupported ''expire'')),
      \<lparr>event = 1, rule = Some 7, keep = False, state = SuspendSessionState,
       notified = [refresh_cond]\<rparr>) \<and>
   ctx_exit CancelledExit \<lparr>event = (1 :: nat), rule = Some (7 :: nat), keep = False,
                          state = SuspendSessionState, notified = [refresh_cond]\<rparr> =
     (None, \<lparr>event = 1, rule = Some 7, keep = False, state = ExpireSessionState,
             notified = [refresh_cond, wakeup_cond, refresh_cond]\<rparr>)"
  by (simp add: suspend_def suspend_enter_def WorkingSessionState_suspend_enter_def
      Session_init_def to_state_def notify_def ctx_exit_def on_state_def expire_def
      wakeup_def SuspendSessionState_wakeup_def WorkingSessionState_expire_def
      SessionState_refuse_def)

section \<open>Properties: The session registry (session/base.py, Session.get)\<close>

subsection \<open>What no method call changes\<close>

lemma evolves_refl: "evolves w w"
  by (simp add: evolves_def)

lemma evolves_trans: "evolves w w' \<Longrightarrow> evolves w' w'' \<Longrightarrow> evolves w w''"
  by (simp add: evolves_def)

lemma tame_methods:
  "tame (\<lambda>s. work s ev)" "tame rest" "tame suspend_enter" "tame (\<lambda>s. wakeup s ev)" "tame expire"
  unfolding tame_def work_def rest_def suspend_enter_def wakeup_def expire_def
    SessionState_refuse_def SpareSessionState_work_def WorkingSessionState_rest_def
    WorkingSessionState_suspend_enter_def SuspendSessionState_wakeup_def
    WorkingSessionState_expire_def to_state_def notify_def
  by (auto split: session_state.splits if_splits)

lemma tame_op_method: "tame (op_method c)"
proof (cases c)
  case (OpWork ev)
  with tame_methods(1) [of ev] show ?thesis by (simp add: tame_def)
next
  case OpRest
  with tame_methods(2) show ?thesis by (simp add: tame_def)
next
  case OpSuspend
  with tame_methods(3) show ?thesis by (simp add: tame_def)
next
  case (OpWakeup ev)
  with tame_methods(4) [of ev] show ?thesis by (simp add: tame_def)
next
  case OpExpire
  with tame_methods(5) show ?thesis by (simp add: tame_def)
qed

lemma session_call_evolves:
  assumes "tame meth"
  shows "evolves w (snd (session_call w i meth))"
proof (cases "meth (sessions w ! i)")
  case (Inl err)
  then show ?thesis by (simp add: session_call_def evolves_refl)
next
  case (Inr s')
  with assms have keep: "rule s' = rule (sessions w ! i)"
    and live: "state (sessions w ! i) \<noteq> ExpireSessionState"
    by (auto simp: tame_def)
  have "\<And>j. rule ((sessions w)[i := s'] ! j) = rule (sessions w ! j) \<and>
          (state (sessions w ! j) = ExpireSessionState \<longrightarrow>
             state ((sessions w)[i := s'] ! j) = ExpireSessionState)"
  proof -
    fix j
    show "rule ((sessions w)[i := s'] ! j) = rule (sessions w ! j) \<and>
          (state (sessions w ! j) = ExpireSessionState \<longrightarrow>
             state ((sessions w)[i := s'] ! j) = ExpireSessionState)"
    proof (cases "j = i")
      case True
      show ?thesis
      proof (cases "i < length (sessions w)")
        case True
        with \<open>j = i\<close> keep live show ?thesis by simp
      next
        case False
        then show ?thesis by (simp add: list_update_beyond)
      qed
    next
      case False
      then show ?thesis by simp
    qed
  qed
  with Inr show ?thesis by (simp add: session_call_def evolves_def)
qed

lemma set_keep_evolves: "evolves w (set_keep w i k)"
proof -
  have "\<And>j. rule ((sessions w)[i := (sessions w ! i)\<lparr>keep := k\<rparr>] ! j) = rule (sessions w ! j) \<and>
          state ((sessions w)[i := (sessions w ! i)\<lparr>keep := k\<rparr>] ! j) = state (sessions w ! j)"
  proof -
    fix j
    show "rule ((sessions w)[i := (sessions w ! i)\<lparr>keep := k\<rparr>] ! j) = rule (sessions w ! j) \<and>
          state ((sessions w)[i := (sessions w ! i)\<lparr>keep := k\<rparr>] ! j) = state (sessions w ! j)"
      by (cases "j = i"; cases "i < length (sessions w)"; simp add: list_update_beyond)
  qed
  then show ?thesis by (simp add: set_keep_def evolves_def)
qed

lemma run_op_evolves: "evolves w (run_op w c)"
  by (simp add: run_op_def evolves_refl session_call_evolves tame_op_method)

lemma run_ops_evolves: "evolves w (run_ops w cs)"
  unfolding run_ops_def
proof (induction cs arbitrary: w)
  case Nil
  show ?case by (simp add: evolves_refl)
next
  case (Cons c cs)
  have "evolves w (run_op w c)" by (rule run_op_evolves)
  moreover have "evolves (run_op w c) (foldl run_op (run_op w c) cs)" by (rule Cons.IH)
  ultimately show ?case using evolves_trans by fastforce
qed

lemma scan_suspends_evolves:
  "scan_suspends cmp r ev members w = Some (out, w') \<Longrightarrow> evolves w w'"
proof (induction members)
  case Nil
  then show ?case by simp
next
  case (Cons i members)
  have "evolves w (snd (session_call w i (\<lambda>s. wakeup s ev)))"
    by (rule session_call_evolves [OF tame_methods(4)])
  with Cons show ?case
    by (auto split: if_splits prod.splits option.splits)
qed

lemma scan_spares_evolves:
  "scan_spares cmp r ev k members w = Some (out, w') \<Longrightarrow> evolves w w'"
proof (induction members)
  case Nil
  then show ?case by simp
next
  case (Cons i members)
  have "evolves w (snd (session_call w i (\<lambda>s. work s ev)))"
    by (rule session_call_evolves [OF tame_methods(1)])
  moreover have "\<And>w1. evolves w w1 \<Longrightarrow> evolves w (set_keep w1 i k)"
    using set_keep_evolves evolves_trans by blast
  ultimately show ?case using Cons
    by (auto split: if_splits prod.splits option.splits)
qed

subsection \<open>Well-formed registries\<close>

lemma evolves_wf: "evolves w w' \<Longrightarrow> wf_world w \<Longrightarrow> wf_world w'"
  by (simp add: evolves_def wf_world_def)

lemma evolves_registered: "evolves w w' \<Longrightarrow> registered w \<Longrightarrow> registered w'"
  unfolding evolves_def registered_def by metis

lemma scan_workings_Cons_cases:
  obtains
    (skip) "scan_workings cmp r ev wait has_cb k (i # members) expires env w =
              scan_workings cmp r ev wait has_cb k members expires env w"
  | (ends) out w1 where
      "scan_workings cmp r ev wait has_cb k (i # members) expires env w = LoopEnds out w1"
      "evolves w w1" "\<forall>j. out = Value (Some j) \<longrightarrow> j = i"
  | (expired) cs env' where
      "scan_workings cmp r ev wait has_cb k (i # members) expires env w =
         scan_workings cmp r ev wait has_cb k members (expires @ [i]) env' (run_ops w cs)"
      "state (sessions (run_ops w cs) ! i) = ExpireSessionState"
proof (cases "on_state (sessions w ! i) WorkingSessionState \<and> cmp r (event (sessions w ! i)) ev")
  case False
  then have "scan_workings cmp r ev wait has_cb k (i # members) expires env w =
               scan_workings cmp r ev wait has_cb k members expires env w"
    by auto
  then show ?thesis by (rule skip)
next
  case match: True
  show ?thesis
  proof (cases wait)
    case False
    with match have "scan_workings cmp r ev wait has_cb k (i # members) expires env w =
        LoopEnds (Value None)
          (if has_cb then w\<lparr>nowait_cb_calls := Suc (nowait_cb_calls w)\<rparr> else w)"
      by simp
    moreover have "evolves w (if has_cb then w\<lparr>nowait_cb_calls := Suc (nowait_cb_calls w)\<rparr> else w)"
      by (simp add: evolves_def)
    ultimately show ?thesis using ends by blast
  next
    case wait: True
    show ?thesis
    proof (cases env)
      case Nil
      with match wait have "scan_workings cmp r ev wait has_cb k (i # members) expires env w =
          LoopEnds Blocked w"
        by simp
      then show ?thesis using ends evolves_refl by blast
    next
      case (Cons cs env')
      define w1 where "w1 = run_ops w cs"
      have ev1: "evolves w w1" unfolding w1_def by (rule run_ops_evolves)
      show ?thesis
      proof (cases "refresh_count (sessions w1 ! i) \<le> refresh_count (sessions w ! i)")
        case True
        with match wait Cons have "scan_workings cmp r ev wait has_cb k (i # members) expires env w =
            LoopEnds Blocked w1"
          by (simp add: w1_def Let_def)
        then show ?thesis using ends ev1 by blast
      next
        case notified: False
        show ?thesis
        proof (cases "on_state (sessions w1 ! i) ExpireSessionState")
          case True
          with match wait Cons notified
          have "scan_workings cmp r ev wait has_cb k (i # members) expires env w =
              scan_workings cmp r ev wait has_cb k members (expires @ [i]) env' (run_ops w cs)"
            by (simp add: w1_def Let_def)
          moreover have "state (sessions (run_ops w cs) ! i) = ExpireSessionState"
            using True by (simp add: w1_def on_state_def)
          ultimately show ?thesis by (rule expired)
        next
          case live: False
          show ?thesis
          proof (cases "on_state (sessions w1 ! i) SuspendSessionState")
            case True
            obtain e w2 where sc: "session_call w1 i (\<lambda>s. wakeup s ev) = (e, w2)"
              by (cases "session_call w1 i (\<lambda>s. wakeup s ev)") auto
            have "evolves w1 w2"
              using session_call_evolves [OF tame_methods(4), of w1 i ev] sc by simp
            then have e2: "evolves w w2" using ev1 evolves_trans by blast
            from True match wait Cons notified live sc
            have "scan_workings cmp r ev wait has_cb k (i # members) expires env w =
                LoopEnds (case e of Some err \<Rightarrow> Raised err | None \<Rightarrow> Value None) w2"
              by (simp add: w1_def Let_def split: option.splits)
            moreover have "\<forall>j. (case e of Some err \<Rightarrow> Raised err | None \<Rightarrow> Value None)
                = Value (Some j) \<longrightarrow> j = i"
              by (simp split: option.splits)
            ultimately show ?thesis using ends e2 by blast
          next
            case False
            obtain e w2 where sc: "session_call w1 i (\<lambda>s. work s ev) = (e, w2)"
              by (cases "session_call w1 i (\<lambda>s. work s ev)") auto
            have "evolves w1 w2"
              using session_call_evolves [OF tame_methods(1), of w1 i ev] sc by simp
            then have e2: "evolves w w2" using ev1 evolves_trans by blast
            then have e3: "evolves w (set_keep w2 i k)"
              using set_keep_evolves evolves_trans by blast
            from False match wait Cons notified live sc
            have "scan_workings cmp r ev wait has_cb k (i # members) expires env w =
                LoopEnds (case e of Some err \<Rightarrow> Raised err | None \<Rightarrow> Value (Some i))
                  (case e of Some err \<Rightarrow> w2 | None \<Rightarrow> set_keep w2 i k)"
              by (simp add: w1_def Let_def split: option.splits)
            moreover have "\<forall>j. (case e of Some err \<Rightarrow> Raised err | None \<Rightarrow> Value (Some i))
                = Value (Some j) \<longrightarrow> j = i"
              by (simp split: option.splits)
            moreover have "evolves w (case e of Some err \<Rightarrow> w2 | None \<Rightarrow> set_keep w2 i k)"
              using e2 e3 by (simp split: option.splits)
            ultimately show ?thesis using ends by blast
          qed
        qed
      qed
    qed
  qed
qed

declare scan_workings.simps(2) [simp del]

lemma scan_workings_ends:
  "scan_workings cmp r ev wait has_cb k members expires env w = LoopEnds out w' \<Longrightarrow>
     evolves w w' \<and> (\<forall>j. out = Value (Some j) \<longrightarrow> j \<in> set members)"
proof (induction members arbitrary: expires env w)
  case Nil
  then show ?case by simp
next
  case (Cons i members)
  show ?case
  proof (cases rule: scan_workings_Cons_cases [of cmp r ev wait has_cb k i members expires env w])
    case skip
    with Cons.prems Cons.IH [of expires env w] show ?thesis by simp
  next
    case (ends out1 w1)
    with Cons.prems show ?thesis by simp
  next
    case (expired cs env')
    with Cons.prems Cons.IH [of "expires @ [i]" env' "run_ops w cs"]
    have "evolves (run_ops w cs) w' \<and> (\<forall>j. out = Value (Some j) \<longrightarrow> j \<in> set members)"
      by simp
    then show ?thesis using run_ops_evolves [of w cs] evolves_trans by fastforce
  qed
qed

lemma scan_workings_done:
  "scan_workings cmp r ev wait has_cb k members expires env w = LoopDone exps w' \<Longrightarrow>
   \<forall>i\<in>set expires. state (sessions w ! i) = ExpireSessionState \<Longrightarrow>
     evolves w w' \<and> set expires \<subseteq> set exps \<and>
     (\<forall>i\<in>set exps. state (sessions w' ! i) = ExpireSessionState)"
proof (induction members arbitrary: expires env w)
  case Nil
  then show ?case by (simp add: evolves_refl)
next
  case (Cons i members)
  show ?case
  proof (cases rule: scan_workings_Cons_cases [of cmp r ev wait has_cb k i members expires env w])
    case skip
    with Cons.prems Cons.IH [of expires env w] show ?thesis by simp
  next
    case (ends out1 w1)
    with Cons.prems show ?thesis by simp
  next
    case (expired cs env')
    have ev1: "evolves w (run_ops w cs)" by (rule run_ops_evolves)
    with Cons.prems(2) expired(2)
    have "\<forall>j\<in>set (expires @ [i]). state (sessions (run_ops w cs) ! j) = ExpireSessionState"
      by (auto simp: evolves_def)
    with expired(1) Cons.prems(1) Cons.IH [of "expires @ [i]" env' "run_ops w cs"]
    have "evolves (run_ops w cs) w' \<and> set (expires @ [i]) \<subseteq> set exps \<and>
          (\<forall>i\<in>set exps. state (sessions w' ! i) = ExpireSessionState)"
      by simp
    then show ?thesis using ev1 evolves_trans by fastforce
  qed
qed

subsection \<open>Removing the expired sessions\<close>

lemma shrinks_sessions: "shrinks X w w' \<Longrightarrow> sessions w' = sessions w"
  by (simp add: shrinks_def)

lemma shrinks_None: "shrinks X w w' \<Longrightarrow> instances w r = None \<Longrightarrow> instances w' r = None"
  by (simp add: shrinks_def)

lemma shrinks_Some:
  "shrinks X w w' \<Longrightarrow> instances w r = Some ms \<Longrightarrow>
     \<exists>Y. Y \<subseteq> X \<and> instances w' r = Some (filter (\<lambda>i. i \<notin> Y) ms)"
  by (simp add: shrinks_def)

lemma shrinks_refl: "shrinks X w w"
  unfolding shrinks_def
proof (intro conjI allI impI)
  fix r ms
  assume "instances w r = Some ms"
  then have "{} \<subseteq> X \<and> instances w r = Some (filter (\<lambda>i. i \<notin> {}) ms)" by simp
  then show "\<exists>Y. Y \<subseteq> X \<and> instances w r = Some (filter (\<lambda>i. i \<notin> Y) ms)"
    by (rule exI)
qed simp_all

lemma shrinks_trans:
  assumes "shrinks X w w1" and "shrinks Y w1 w2"
  shows "shrinks (X \<union> Y) w w2"
  unfolding shrinks_def
proof (intro conjI allI impI)
  show "sessions w2 = sessions w" using assms by (simp add: shrinks_def)
next
  fix r
  assume "instances w r = None"
  then show "instances w2 r = None"
    using shrinks_None [OF assms(1)] shrinks_None [OF assms(2)] by simp
next
  fix r ms
  assume "instances w r = Some ms"
  from shrinks_Some [OF assms(1) this]
  obtain A where A: "A \<subseteq> X" "instances w1 r = Some (filter (\<lambda>i. i \<notin> A) ms)"
    by auto
  from shrinks_Some [OF assms(2) A(2)]
  obtain B where B: "B \<subseteq> Y"
      "instances w2 r = Some (filter (\<lambda>i. i \<notin> B) (filter (\<lambda>i. i \<notin> A) ms))"
    by auto
  have "filter (\<lambda>i. i \<notin> B) (filter (\<lambda>i. i \<notin> A) ms) = filter (\<lambda>i. i \<notin> A \<union> B) ms"
    by (induction ms) auto
  with A B have "A \<union> B \<subseteq> X \<union> Y \<and> instances w2 r = Some (filter (\<lambda>i. i \<notin> A \<union> B) ms)"
    by auto
  then show "\<exists>Z. Z \<subseteq> X \<union> Y \<and> instances w2 r = Some (filter (\<lambda>i. i \<notin> Z) ms)"
    by (rule exI)
qed

lemma shrinks_remove_one:
  assumes "instances w r' = Some ms"
  shows "shrinks {i} w (w\<lparr>instances := (instances w)(r' \<mapsto> removeAll i ms)\<rparr>)"
  unfolding shrinks_def
proof (intro conjI allI impI)
  show "sessions (w\<lparr>instances := (instances w)(r' \<mapsto> removeAll i ms)\<rparr>) = sessions w" by simp
next
  fix r
  assume "instances w r = None"
  with assms show "instances (w\<lparr>instances := (instances w)(r' \<mapsto> removeAll i ms)\<rparr>) r = None"
    by auto
next
  fix r ms'
  assume old: "instances w r = Some ms'"
  show "\<exists>Y. Y \<subseteq> {i} \<and>
            instances (w\<lparr>instances := (instances w)(r' \<mapsto> removeAll i ms)\<rparr>) r =
              Some (filter (\<lambda>i. i \<notin> Y) ms')"
  proof (cases "r = r'")
    case True
    have "removeAll i ms = filter (\<lambda>j. j \<notin> {i}) ms" by (induction ms) auto
    with True assms old have "{i} \<subseteq> {i} \<and>
            instances (w\<lparr>instances := (instances w)(r' \<mapsto> removeAll i ms)\<rparr>) r =
              Some (filter (\<lambda>j. j \<notin> {i}) ms')" by simp
    then show ?thesis by (rule exI)
  next
    case False
    with old have "{} \<subseteq> {i} \<and>
            instances (w\<lparr>instances := (instances w)(r' \<mapsto> removeAll i ms)\<rparr>) r =
              Some (filter (\<lambda>j. j \<notin> {}) ms')" by simp
    then show ?thesis by (rule exI)
  qed
qed

lemma remove_expired_shrinks: "shrinks (set exps) w (snd (remove_expired exps w))"
proof (induction exps arbitrary: w)
  case Nil
  show ?case by (simp add: shrinks_refl)
next
  case (Cons i exps)
  show ?case
  proof (cases "rule (sessions w ! i)")
    case None
    then show ?thesis by (simp add: shrinks_refl)
  next
    case (Some r')
    show ?thesis
    proof (cases "instances w r'")
      case None
      with Some show ?thesis by (simp add: shrinks_refl)
    next
      case inst: (Some ms)
      show ?thesis
      proof (cases "i \<in> set ms")
        case False
        with Some inst show ?thesis by (simp add: shrinks_refl)
      next
        case True
        let ?w1 = "w\<lparr>instances := (instances w)(r' \<mapsto> removeAll i ms)\<rparr>"
        have "shrinks {i} w ?w1" by (rule shrinks_remove_one [OF inst])
        moreover have "shrinks (set exps) ?w1 (snd (remove_expired exps ?w1))" by (rule Cons.IH)
        ultimately have "shrinks ({i} \<union> set exps) w (snd (remove_expired exps ?w1))"
          by (rule shrinks_trans)
        with Some inst True show ?thesis by simp
      qed
    qed
  qed
qed

lemma shrinks_absent:
  assumes "shrinks X w w'" and "instances w r = Some ms" and "i \<notin> set ms"
  shows "\<exists>ms'. instances w' r = Some ms' \<and> i \<notin> set ms'"
proof -
  from shrinks_Some [OF assms(1,2)]
  obtain Y where "instances w' r = Some (filter (\<lambda>i. i \<notin> Y) ms)"
    by auto
  with assms(3) show ?thesis by auto
qed

lemma remove_expired_removed:
  "remove_expired exps w = (None, w') \<Longrightarrow> i \<in> set exps \<Longrightarrow>
   rule (sessions w ! i) = Some r \<Longrightarrow> \<exists>ms'. instances w' r = Some ms' \<and> i \<notin> set ms'"
proof (induction exps arbitrary: w)
  case Nil
  then show ?case by simp
next
  case (Cons j exps)
  from Cons.prems(1) obtain r' ms where
    rj: "rule (sessions w ! j) = Some r'" and inst: "instances w r' = Some ms" and
    mem: "j \<in> set ms" and
    rec: "remove_expired exps (w\<lparr>instances := (instances w)(r' \<mapsto> removeAll j ms)\<rparr>) = (None, w')"
    by (auto split: option.splits if_splits)
  let ?w1 = "w\<lparr>instances := (instances w)(r' \<mapsto> removeAll j ms)\<rparr>"
  show ?case
  proof (cases "i \<in> set exps")
    case True
    with Cons.IH [of ?w1] rec Cons.prems(3) show ?thesis by simp
  next
    case False
    with Cons.prems(2) have "i = j" by simp
    with rj Cons.prems(3) have "r' = r" by simp
    with \<open>i = j\<close> have a: "instances ?w1 r = Some (removeAll i ms)"
      and b: "i \<notin> set (removeAll i ms)"
      by simp_all
    have c: "shrinks (set exps) ?w1 w'"
      using remove_expired_shrinks [of exps ?w1] rec by simp
    show ?thesis by (rule shrinks_absent [OF c a b])
  qed
qed

lemma shrinks_wf: "shrinks X w w' \<Longrightarrow> wf_world w \<Longrightarrow> wf_world w'"
  unfolding wf_world_def
proof (intro allI impI)
  fix r ms'
  assume sh: "shrinks X w w'"
    and wf: "\<forall>r ms. instances w r = Some ms \<longrightarrow>
       distinct ms \<and> (\<forall>i\<in>set ms. i < length (sessions w) \<and> rule (sessions w ! i) = Some r)"
    and new: "instances w' r = Some ms'"
  from sh have same: "sessions w' = sessions w" by (simp add: shrinks_def)
  have "instances w r \<noteq> None"
    using shrinks_None [OF sh, of r] new by auto
  then obtain ms where old: "instances w r = Some ms" by auto
  from shrinks_Some [OF sh old] new obtain Y where f: "ms' = filter (\<lambda>i. i \<notin> Y) ms"
    by auto
  from wf old have "distinct ms"
    and "\<forall>i\<in>set ms. i < length (sessions w) \<and> rule (sessions w ! i) = Some r" by blast+
  with f same show "distinct ms' \<and>
     (\<forall>i\<in>set ms'. i < length (sessions w') \<and> rule (sessions w' ! i) = Some r)"
    by auto
qed

lemma shrinks_registered:
  assumes sh: "shrinks X w w'" and reg: "registered w"
    and dead: "\<forall>i\<in>X. state (sessions w ! i) = ExpireSessionState"
  shows "registered w'"
  unfolding registered_def
proof (intro allI impI)
  fix i r
  assume a: "i < length (sessions w') \<and> rule (sessions w' ! i) = Some r \<and>
     state (sessions w' ! i) \<noteq> ExpireSessionState"
  from sh have same: "sessions w' = sessions w" by (simp add: shrinks_def)
  from reg have "i < length (sessions w) \<and> rule (sessions w ! i) = Some r \<and>
        state (sessions w ! i) \<noteq> ExpireSessionState \<longrightarrow>
        (\<exists>ms. instances w r = Some ms \<and> i \<in> set ms)"
    unfolding registered_def by blast
  with a same obtain ms where old: "instances w r = Some ms" and mem: "i \<in> set ms"
    by auto
  from shrinks_Some [OF sh old]
  obtain Y where Y: "Y \<subseteq> X" "instances w' r = Some (filter (\<lambda>i. i \<notin> Y) ms)"
    by auto
  from a same dead have "i \<notin> X" by auto
  with Y mem show "\<exists>ms. instances w' r = Some ms \<and> i \<in> set ms" by auto
qed

subsection \<open>Creating a session\<close>

lemma append_session_wf:
  assumes "wf_world w"
  shows "wf_world (w\<lparr>sessions := sessions w @ [s]\<rparr>)"
  unfolding wf_world_def
proof (intro allI impI)
  fix r ms
  assume "instances (w\<lparr>sessions := sessions w @ [s]\<rparr>) r = Some ms"
  then have "instances w r = Some ms" by simp
  with assms have "distinct ms"
    and "\<forall>i\<in>set ms. i < length (sessions w) \<and> rule (sessions w ! i) = Some r"
    unfolding wf_world_def by blast+
  then show "distinct ms \<and> (\<forall>i\<in>set ms. i < length (sessions (w\<lparr>sessions := sessions w @ [s]\<rparr>)) \<and>
       rule (sessions (w\<lparr>sessions := sessions w @ [s]\<rparr>) ! i) = Some r)"
    by (auto simp: nth_append)
qed

lemma append_ruleless_registered:
  assumes "registered w" and "rule s = None"
  shows "registered (w\<lparr>sessions := sessions w @ [s]\<rparr>)"
  unfolding registered_def
proof (intro allI impI)
  fix i r
  assume a: "i < length (sessions (w\<lparr>sessions := sessions w @ [s]\<rparr>)) \<and>
     rule (sessions (w\<lparr>sessions := sessions w @ [s]\<rparr>) ! i) = Some r \<and>
     state (sessions (w\<lparr>sessions := sessions w @ [s]\<rparr>) ! i) \<noteq> ExpireSessionState"
  show "\<exists>ms. instances (w\<lparr>sessions := sessions w @ [s]\<rparr>) r = Some ms \<and> i \<in> set ms"
  proof (cases "i < length (sessions w)")
    case True
    with a have "rule (sessions w ! i) = Some r \<and> state (sessions w ! i) \<noteq> ExpireSessionState"
      by (simp add: nth_append)
    with True assms(1) show ?thesis unfolding registered_def by auto
  next
    case False
    with a have "i = length (sessions w)" by simp
    with a assms(2) show ?thesis by simp
  qed
qed

lemma create_session_result:
  assumes "instances w r = Some ms"
  shows "create_session ev r k w =
           (Value (Some (length (sessions w))),
            w\<lparr>sessions := sessions w @ [Session_init ev (Some r) k],
              instances := (instances w)
                (r \<mapsto> (if length (sessions w) \<in> set ms then ms else ms @ [length (sessions w)]))\<rparr>)"
  using assms by (simp add: create_session_def Let_def)

lemma create_session_inv:
  assumes wf: "wf_world w" and reg: "registered w" and inst: "instances w r = Some ms"
  shows "wf_world (snd (create_session ev r k w)) \<and> registered (snd (create_session ev r k w))"
proof -
  let ?n = "length (sessions w)"
  let ?w' = "w\<lparr>sessions := sessions w @ [Session_init ev (Some r) k],
              instances := (instances w)(r \<mapsto> ms @ [?n])\<rparr>"
  from wf inst have fresh: "?n \<notin> set ms" and dist: "distinct ms"
    unfolding wf_world_def by auto
  with inst have res: "snd (create_session ev r k w) = ?w'"
    by (simp add: create_session_result)
  have "wf_world ?w'"
    unfolding wf_world_def
  proof (intro allI impI)
    fix r' ms'
    assume new: "instances ?w' r' = Some ms'"
    show "distinct ms' \<and> (\<forall>i\<in>set ms'. i < length (sessions ?w') \<and>
            rule (sessions ?w' ! i) = Some r')"
    proof (cases "r' = r")
      case True
      with new have ms': "ms' = ms @ [?n]" by simp
      from wf inst have "\<forall>i\<in>set ms. i < ?n \<and> rule (sessions w ! i) = Some r"
        unfolding wf_world_def by blast
      with ms' True fresh dist show ?thesis
        by (auto simp: nth_append Session_init_def)
    next
      case False
      with new have "instances w r' = Some ms'" by simp
      with wf have "distinct ms' \<and> (\<forall>i\<in>set ms'. i < ?n \<and> rule (sessions w ! i) = Some r')"
        unfolding wf_world_def by blast
      then show ?thesis by (auto simp: nth_append)
    qed
  qed
  moreover have "registered ?w'"
    unfolding registered_def
  proof (intro allI impI)
    fix i r'
    assume a: "i < length (sessions ?w') \<and> rule (sessions ?w' ! i) = Some r' \<and>
       state (sessions ?w' ! i) \<noteq> ExpireSessionState"
    show "\<exists>ms'. instances ?w' r' = Some ms' \<and> i \<in> set ms'"
    proof (cases "i < ?n")
      case True
      with a have "rule (sessions w ! i) = Some r' \<and> state (sessions w ! i) \<noteq> ExpireSessionState"
        by (simp add: nth_append)
      with True reg obtain ms' where "instances w r' = Some ms'" "i \<in> set ms'"
        unfolding registered_def by blast
      with inst show ?thesis by (cases "r' = r") auto
    next
      case False
      with a have "i = ?n" by simp
      with a have "r' = r" by (simp add: Session_init_def)
      with \<open>i = ?n\<close> show ?thesis by simp
    qed
  qed
  ultimately show ?thesis using res by simp
qed

lemma setdefault_inv:
  assumes wf: "wf_world w" and reg: "registered w"
  shows "wf_world (w\<lparr>instance_locks := L,
            instances := (instances w)(r \<mapsto> (case instances w r of None \<Rightarrow> [] | Some ms \<Rightarrow> ms))\<rparr>) \<and>
         registered (w\<lparr>instance_locks := L,
            instances := (instances w)(r \<mapsto> (case instances w r of None \<Rightarrow> [] | Some ms \<Rightarrow> ms))\<rparr>)"
proof (cases "instances w r")
  case None
  have "wf_world (w\<lparr>instance_locks := L, instances := (instances w)(r \<mapsto> [])\<rparr>)"
    using wf unfolding wf_world_def by auto
  moreover have "registered (w\<lparr>instance_locks := L, instances := (instances w)(r \<mapsto> [])\<rparr>)"
    unfolding registered_def
  proof (intro allI impI)
    fix i r'
    assume "i < length (sessions (w\<lparr>instance_locks := L, instances := (instances w)(r \<mapsto> [])\<rparr>)) \<and>
      rule (sessions (w\<lparr>instance_locks := L, instances := (instances w)(r \<mapsto> [])\<rparr>) ! i) = Some r' \<and>
      state (sessions (w\<lparr>instance_locks := L, instances := (instances w)(r \<mapsto> [])\<rparr>) ! i)
        \<noteq> ExpireSessionState"
    then have "i < length (sessions w) \<and> rule (sessions w ! i) = Some r' \<and>
      state (sessions w ! i) \<noteq> ExpireSessionState" by simp
    with reg obtain ms where ms: "instances w r' = Some ms" "i \<in> set ms"
      unfolding registered_def by blast
    with None have "r' \<noteq> r" by auto
    with ms show "\<exists>ms. instances (w\<lparr>instance_locks := L, instances := (instances w)(r \<mapsto> [])\<rparr>) r' =
        Some ms \<and> i \<in> set ms" by simp
  qed
  ultimately show ?thesis using None by simp
next
  case (Some ms)
  then have "(instances w)(r \<mapsto> ms) = instances w" by (simp add: fun_upd_idem)
  moreover have "wf_world (w\<lparr>instance_locks := L\<rparr>)" using wf by (simp add: wf_world_def)
  moreover have "registered (w\<lparr>instance_locks := L\<rparr>)" using reg by (simp add: registered_def)
  ultimately show ?thesis using Some by simp
qed

subsection \<open>The ways a call of get can end\<close>

lemma get_entry_simps:
  "sessions (get_entry r w) = sessions w"
  "instances (get_entry r w) r = Some (members_of r w)"
  by (simp_all add: get_entry_def)

lemma get_entry_inv:
  "wf_world w \<Longrightarrow> registered w \<Longrightarrow> wf_world (get_entry r w) \<and> registered (get_entry r w)"
  using setdefault_inv [where w = w and L = "insert r (instance_locks w)" and r = r]
  by (simp add: get_entry_def members_of_def)

lemma get_with_rule:
  "get cmp ev (Some r) wait has_cb k env w =
     (case scan_suspends cmp r ev (members_of r w) (get_entry r w) of
        Some res \<Rightarrow> res
      | None \<Rightarrow>
          (case scan_spares cmp r ev k (members_of r w) (get_entry r w) of
             Some res \<Rightarrow> res
           | None \<Rightarrow>
               (case scan_workings cmp r ev wait has_cb k (members_of r w)
                       (filter (\<lambda>i. on_state (sessions w ! i) ExpireSessionState) (members_of r w))
                       env (get_entry r w) of
                  LoopEnds out w3 \<Rightarrow> (out, w3)
                | LoopDone expires' w3 \<Rightarrow>
                    (case remove_expired expires' w3 of
                       (Some err, w4) \<Rightarrow> (Raised err, w4)
                     | (None, w4) \<Rightarrow> create_session ev r k w4))))"
  by (simp add: get_def get_entry_def members_of_def Let_def
      cong: option.case_cong loop_exit.case_cong)

lemma scan_suspends_outcome:
  "scan_suspends cmp r ev members w = Some (out, w') \<Longrightarrow> out \<noteq> Value (Some j)"
  by (induction members) (auto split: if_splits prod.splits option.splits)

lemma scan_spares_outcome:
  "scan_spares cmp r ev k members w = Some (Value (Some j), w') \<Longrightarrow> j \<in> set members"
  by (induction members) (auto split: if_splits prod.splits option.splits)

text \<open>How a call of get with a rule can end.\<close>

lemma get_rule_cases:
  obtains
    (attached) out w' where
      "get cmp ev (Some r) wait has_cb k env w = (out, w')"
      "evolves (get_entry r w) w'"
      "\<forall>j. out = Value (Some j) \<longrightarrow> j \<in> set (members_of r w)"
  | (remove_failed) exps w3 err w4 where
      "get cmp ev (Some r) wait has_cb k env w = (Raised err, w4)"
      "evolves (get_entry r w) w3"
      "\<forall>i\<in>set exps. state (sessions w3 ! i) = ExpireSessionState"
      "remove_expired exps w3 = (Some err, w4)"
  | (created) exps w3 w4 where
      "get cmp ev (Some r) wait has_cb k env w = create_session ev r k w4"
      "evolves (get_entry r w) w3"
      "\<forall>i\<in>set (members_of r w). state (sessions w ! i) = ExpireSessionState \<longrightarrow> i \<in> set exps"
      "\<forall>i\<in>set exps. state (sessions w3 ! i) = ExpireSessionState"
      "remove_expired exps w3 = (None, w4)"
proof (cases "scan_suspends cmp r ev (members_of r w) (get_entry r w)")
  case (Some res)
  obtain out w' where res: "res = (out, w')" by (cases res)
  with Some have "get cmp ev (Some r) wait has_cb k env w = (out, w')"
    by (simp add: get_with_rule)
  moreover have "evolves (get_entry r w) w'"
    using Some res scan_suspends_evolves by fastforce
  moreover have "\<forall>j. out = Value (Some j) \<longrightarrow> j \<in> set (members_of r w)"
    using Some res scan_suspends_outcome by fastforce
  ultimately show ?thesis by (rule attached)
next
  case no_suspended: None
  show ?thesis
  proof (cases "scan_spares cmp r ev k (members_of r w) (get_entry r w)")
    case (Some res)
    obtain out w' where res: "res = (out, w')" by (cases res)
    with Some no_suspended have "get cmp ev (Some r) wait has_cb k env w = (out, w')"
      by (simp add: get_with_rule)
    moreover have "evolves (get_entry r w) w'"
      using Some res scan_spares_evolves by fastforce
    moreover have "\<forall>j. out = Value (Some j) \<longrightarrow> j \<in> set (members_of r w)"
      using Some res scan_spares_outcome by fastforce
    ultimately show ?thesis by (rule attached)
  next
    case no_spare: None
    let ?expires = "filter (\<lambda>i. on_state (sessions w ! i) ExpireSessionState) (members_of r w)"
    show ?thesis
    proof (cases "scan_workings cmp r ev wait has_cb k (members_of r w) ?expires env
                    (get_entry r w)")
      case (LoopEnds out w3)
      with no_suspended no_spare have "get cmp ev (Some r) wait has_cb k env w = (out, w3)"
        by (simp add: get_with_rule)
      moreover from scan_workings_ends [OF LoopEnds]
      have "evolves (get_entry r w) w3"
        and "\<forall>j. out = Value (Some j) \<longrightarrow> j \<in> set (members_of r w)" by blast+
      ultimately show ?thesis by (rule attached)
    next
      case (LoopDone exps w3)
      have "\<forall>i\<in>set ?expires. state (sessions (get_entry r w) ! i) = ExpireSessionState"
        by (simp add: get_entry_simps on_state_def)
      from scan_workings_done [OF LoopDone this]
      have e3: "evolves (get_entry r w) w3" and sub: "set ?expires \<subseteq> set exps"
        and dead: "\<forall>i\<in>set exps. state (sessions w3 ! i) = ExpireSessionState" by blast+
      from sub have coll: "\<forall>i\<in>set (members_of r w).
          state (sessions w ! i) = ExpireSessionState \<longrightarrow> i \<in> set exps"
        by (auto simp: on_state_def)
      obtain e w4 where rem: "remove_expired exps w3 = (e, w4)"
        by (cases "remove_expired exps w3")
      show ?thesis
      proof (cases e)
        case None
        with no_suspended no_spare LoopDone rem
        have "get cmp ev (Some r) wait has_cb k env w = create_session ev r k w4"
          by (simp add: get_with_rule)
        then show ?thesis using e3 coll dead rem None by (intro created) auto
      next
        case (Some err)
        with no_suspended no_spare LoopDone rem
        have "get cmp ev (Some r) wait has_cb k env w = (Raised err, w4)"
          by (simp add: get_with_rule)
        then show ?thesis using e3 dead rem Some by (intro remove_failed) auto
      qed
    qed
  qed
qed

subsection \<open>Reachable shared states\<close>

lemma init_inv: "wf_world init_world \<and> registered init_world"
  by (simp add: wf_world_def registered_def init_world_def)

lemma get_inv:
  assumes wf: "wf_world w" and reg: "registered w"
  shows "wf_world (snd (get cmp ev rule_arg wait has_cb k env w)) \<and>
         registered (snd (get cmp ev rule_arg wait has_cb k env w))"
proof (cases rule_arg)
  case None
  then have "snd (get cmp ev rule_arg wait has_cb k env w) =
      w\<lparr>sessions := sessions w @ [Session_init ev None k]\<rparr>"
    by (simp add: get_def)
  moreover have "rule (Session_init ev (None :: 'b option) k) = None"
    by (simp add: Session_init_def)
  ultimately show ?thesis
    using append_session_wf [OF wf] append_ruleless_registered [OF reg] by simp
next
  case (Some r)
  from get_entry_inv [OF wf reg]
  have wf2: "wf_world (get_entry r w)" and reg2: "registered (get_entry r w)" by blast+
  show ?thesis
  proof (cases rule: get_rule_cases [of cmp ev r wait has_cb k env w])
    case (attached out w')
    with Some wf2 reg2 show ?thesis
      using evolves_wf evolves_registered by fastforce
  next
    case (remove_failed exps w3 err w4)
    from remove_failed(2) wf2 reg2 have wf3: "wf_world w3" and reg3: "registered w3"
      using evolves_wf evolves_registered by blast+
    have sh: "shrinks (set exps) w3 w4"
      using remove_expired_shrinks [of exps w3] remove_failed(4) by simp
    from shrinks_wf [OF sh wf3] shrinks_registered [OF sh reg3 remove_failed(3)]
    show ?thesis using Some remove_failed(1) by simp
  next
    case (created exps w3 w4)
    from created(2) wf2 reg2 have wf3: "wf_world w3" and reg3: "registered w3"
      using evolves_wf evolves_registered by blast+
    have sh: "shrinks (set exps) w3 w4"
      using remove_expired_shrinks [of exps w3] created(5) by simp
    have wf4: "wf_world w4" and reg4: "registered w4"
      using shrinks_wf [OF sh wf3] shrinks_registered [OF sh reg3 created(4)] by blast+
    have "instances w3 r = Some (members_of r w)"
      using created(2) by (simp add: evolves_def get_entry_simps)
    from shrinks_Some [OF sh this] obtain ms4 where "instances w4 r = Some ms4" by auto
    from create_session_inv [OF wf4 reg4 this] show ?thesis
      using Some created(1) by simp
  qed
qed

lemma reachable_inv: "reachable cmp w \<Longrightarrow> wf_world w \<and> registered w"
proof (induction rule: reachable.induct)
  case reach_init
  show ?case by (rule init_inv)
next
  case (reach_op w c)
  then show ?case using run_op_evolves [of w c] evolves_wf evolves_registered by blast
next
  case (reach_get w ev rule_arg wait has_cb k env)
  then have "wf_world w" and "registered w" by simp_all
  then show ?case by (rule get_inv)
qed

lemma get_removes_expired:
  assumes wf: "wf_world w" and inst: "instances w r = Some ms" and mem: "i \<in> set ms"
    and dead: "state (sessions w ! i) = ExpireSessionState"
    and res: "get cmp ev (Some r) wait has_cb k env w = (Value (Some (length (sessions w))), w')"
  shows "\<exists>ms'. instances w' r = Some ms' \<and> i \<notin> set ms' \<and> length (sessions w) \<in> set ms'"
proof -
  from inst have mo: "members_of r w = ms" by (simp add: members_of_def)
  from wf inst have bound: "\<forall>j\<in>set ms. j < length (sessions w)"
    and ri: "rule (sessions w ! i) = Some r"
    using mem unfolding wf_world_def by blast+
  show ?thesis
  proof (cases rule: get_rule_cases [of cmp ev r wait has_cb k env w])
    case (attached out w'')
    with res mo have "length (sessions w) \<in> set ms" by simp
    with bound show ?thesis by auto
  next
    case (remove_failed exps w3 err w4)
    with res show ?thesis by simp
  next
    case (created exps w3 w4)
    from created(3) mo mem dead have iex: "i \<in> set exps" by simp
    from created(2) have same3: "length (sessions w3) = length (sessions w)"
      and r3: "rule (sessions w3 ! i) = Some r"
      using ri by (simp_all add: evolves_def get_entry_simps)
    from remove_expired_removed [OF created(5) iex r3]
    obtain ms4 where i4: "instances w4 r = Some ms4" "i \<notin> set ms4" by auto
    have "sessions w4 = sessions w3"
      using remove_expired_shrinks [of exps w3] created(5) by (simp add: shrinks_def)
    with same3 have len4: "length (sessions w4) = length (sessions w)" by simp
    from bound mem have "i \<noteq> length (sessions w)" by auto
    with created(1) res i4 len4 show ?thesis
      by (auto simp: create_session_result)
  qed
qed

subsection \<open>Waking a suspended session\<close>

lemma scan_suspends_found:
  "find (matches_suspended cmp r ev w) members = Some j \<Longrightarrow>
     scan_suspends cmp r ev members w =
       Some (Value None,
             w\<lparr>sessions := (sessions w)[j := (sessions w ! j)\<lparr>event := ev,
                  state := WorkingSessionState,
                  notified := notified (sessions w ! j) @ [wakeup_cond]\<rparr>]\<rparr>)"
proof (induction members)
  case Nil
  then show ?case by simp
next
  case (Cons i members)
  show ?case
  proof (cases "matches_suspended cmp r ev w i")
    case True
    with Cons.prems have "j = i" by simp
    with True show ?thesis
      by (simp add: matches_suspended_def on_state_def session_call_def legal_ops(4))
  next
    case False
    with Cons show ?thesis
      by (auto simp: matches_suspended_def on_state_def)
  qed
qed

lemma find_first_exists: "i \<in> set xs \<Longrightarrow> P i \<Longrightarrow> \<exists>j. find P xs = Some j"
  by (induction xs) auto

lemma find_unique:
  "find P xs = Some j \<Longrightarrow> i \<in> set xs \<Longrightarrow> P i \<Longrightarrow> (\<forall>j'\<in>set xs. P j' \<longrightarrow> j' = i) \<Longrightarrow> j = i"
  by (metis find_Some_iff nth_mem)

text \<open>
  Claim C4. If some Suspended session \<open>i\<close> in the set of \<open>rule\<close> matches the event, then
  \<^verbatim>\<open>get(event, rule, ...)\<close> returns \<^verbatim>\<open>None\<close> after calling \<^verbatim>\<open>wakeup(event)\<close> on a matching
  Suspended session \<open>j\<close>, the first one in the iteration order of the set (so \<open>j\<close> is \<open>i\<close>
  when \<open>i\<close> is the only one that matches): that session is bound to the event, is Working
  and its \<^verbatim>\<open>wakeup_cond\<close> is notified. No session is created, the registry is unchanged,
  and \<^verbatim>\<open>nowait_cb\<close> is not called. This holds for every \<open>wait\<close>, \<open>nowait_cb\<close>, \<open>keep\<close> and
  every environment.
\<close>

theorem get_wakes_suspended:
  assumes reg: "instances w r = Some members"
    and bound: "\<forall>j\<in>set members. j < length (sessions w)"
    and memb: "i \<in> set members"
    and susp: "state (sessions w ! i) = SuspendSessionState"
    and cmp: "cmp r (event (sessions w ! i)) ev"
  shows "\<exists>j w'. get cmp ev (Some r) wait has_cb k env w = (Value None, w') \<and>
           find (matches_suspended cmp r ev w) members = Some j \<and>
           ((\<forall>j'\<in>set members. matches_suspended cmp r ev w j' \<longrightarrow> j' = i) \<longrightarrow> j = i) \<and>
           sessions w' = (sessions w)[j := (sessions w ! j)\<lparr>event := ev,
               state := WorkingSessionState,
               notified := notified (sessions w ! j) @ [wakeup_cond]\<rparr>] \<and>
           state (sessions w' ! j) = WorkingSessionState \<and>
           event (sessions w' ! j) = ev \<and>
           length (sessions w') = length (sessions w) \<and>
           instances w' = instances w \<and>
           nowait_cb_calls w' = nowait_cb_calls w"
proof -
  have mi: "matches_suspended cmp r ev w i"
    using susp cmp by (simp add: matches_suspended_def)
  with memb obtain j where j: "find (matches_suspended cmp r ev w) members = Some j"
    using find_first_exists by metis
  then have jm: "j \<in> set members" by (metis find_Some_iff nth_mem)
  with bound have jb: "j < length (sessions w)" by simp
  have uniq: "(\<forall>j'\<in>set members. matches_suspended cmp r ev w j' \<longrightarrow> j' = i) \<longrightarrow> j = i"
    using j memb mi find_unique by metis
  from reg have mo: "members_of r w = members" by (simp add: members_of_def)
  have same: "matches_suspended cmp r ev (get_entry r w) = matches_suspended cmp r ev w"
    by (simp add: matches_suspended_def fun_eq_iff get_entry_simps)
  define w' where "w' = (get_entry r w)\<lparr>sessions := (sessions w)[j := (sessions w ! j)\<lparr>event := ev,
               state := WorkingSessionState,
               notified := notified (sessions w ! j) @ [wakeup_cond]\<rparr>]\<rparr>"
  have "scan_suspends cmp r ev members (get_entry r w) = Some (Value None, w')"
    using scan_suspends_found [of cmp r ev "get_entry r w" members j] j same
    by (simp add: w'_def get_entry_simps)
  then have g: "get cmp ev (Some r) wait has_cb k env w = (Value None, w')"
    by (simp add: get_with_rule mo)
  have inst: "instances w' = instances w"
    using reg by (simp add: w'_def get_entry_def mo fun_upd_idem)
  have s: "sessions w' = (sessions w)[j := (sessions w ! j)\<lparr>event := ev,
               state := WorkingSessionState,
               notified := notified (sessions w ! j) @ [wakeup_cond]\<rparr>]"
    by (simp add: w'_def)
  have n: "nowait_cb_calls w' = nowait_cb_calls w" by (simp add: w'_def get_entry_def)
  from s jb have st: "state (sessions w' ! j) = WorkingSessionState"
    and e: "event (sessions w' ! j) = ev" and l: "length (sessions w') = length (sessions w)"
    by simp_all
  from g j uniq s st e l inst n show ?thesis by blast
qed

theorem get_wakes_suspended_witness:
  "\<exists>w'. get same_user (7, ''again'') (Some 0) True False False [] suspended_world =
           (Value None, w') \<and>
         sessions w' = [\<lparr>event = (7, ''again''), rule = Some 0, keep = False,
                         state = WorkingSessionState,
                         notified = [refresh_cond, wakeup_cond]\<rparr>] \<and>
         instances w' 0 = Some [0]"
proof -
  have a: "instances suspended_world 0 = Some [0]" by (simp add: suspended_world_def)
  have b: "\<forall>j\<in>set [0]. j < length (sessions suspended_world)"
    by (simp add: suspended_world_def)
  have c: "(0 :: nat) \<in> set [0]" by simp
  have d: "state (sessions suspended_world ! 0) = SuspendSessionState"
    by (simp add: suspended_world_def)
  have e: "same_user 0 (event (sessions suspended_world ! 0)) (7, ''again'')"
    by (simp add: suspended_world_def same_user_def)
  from get_wakes_suspended [where cmp = same_user and ev = "(7, ''again'')" and wait = True
      and has_cb = False and k = False and env = "[]", OF a b c d e]
  obtain j w' where
    g: "get same_user (7, ''again'') (Some 0) True False False [] suspended_world = (Value None, w')"
    and f: "find (matches_suspended same_user 0 (7, ''again'') suspended_world) [0] = Some j"
    and s: "sessions w' = (sessions suspended_world)[j := (sessions suspended_world ! j)
              \<lparr>event := (7, ''again''), state := WorkingSessionState,
               notified := notified (sessions suspended_world ! j) @ [wakeup_cond]\<rparr>]"
    and i: "instances w' = instances suspended_world"
    by blast
  from f have "j = 0" by (simp split: if_splits)
  with s have "sessions w' = [\<lparr>event = (7, ''again''), rule = Some 0, keep = False,
                         state = WorkingSessionState,
                         notified = [refresh_cond, wakeup_cond]\<rparr>]"
    by (simp add: suspended_world_def)
  moreover from i a have "instances w' 0 = Some [0]" by simp
  ultimately show ?thesis using g by blast
qed

subsection \<open>Membership in the registry\<close>

lemma first_get:
  "get same_user (7, ''hello'') (Some 0) True False False [] init_world =
     (Value (Some 0),
      \<lparr>sessions = [\<lparr>event = (7, ''hello''), rule = Some 0, keep = False,
                    state = WorkingSessionState, notified = []\<rparr>],
       instances = (\<lambda>r. None)(0 \<mapsto> [0]), instance_locks = {0}, nowait_cb_calls = 0\<rparr>)"
  by (simp add: get_def init_world_def create_session_def Session_init_def Let_def)

text \<open>
  Claim C1, as stated, has a session leave the set of its rule on entry to Expired. In the
  source \<^verbatim>\<open>expire()\<close> changes the state object only: the session that \<^verbatim>\<open>get\<close> created
  for rule 0 is Expired after \<^verbatim>\<open>expire()\<close> and still a member of the set of rule 0.
\<close>

theorem expired_session_stays_registered:
  "fst (get same_user (7, ''hello'') (Some 0) True False False [] init_world) = Value (Some 0) \<and>
   state (sessions (run_op (snd (get same_user (7, ''hello'') (Some 0) True False False []
       init_world)) (0, OpExpire)) ! 0) = ExpireSessionState \<and>
   instances (run_op (snd (get same_user (7, ''hello'') (Some 0) True False False []
       init_world)) (0, OpExpire)) 0 = Some [0]"
  by (simp add: first_get run_op_def session_call_def expire_def WorkingSessionState_expire_def
      to_state_def notify_def)

text \<open>
  Claim C1, amended. In every reachable shared state, a session with rule \<open>r\<close> whose state
  is Working, Spare or Suspended is a member of the set of \<open>r\<close>. The converse does not
  hold: \<^verbatim>\<open>expire()\<close> on a Working session makes it Expired and leaves the registry as it
  is. Expired sessions are removed later: a call \<^verbatim>\<open>get(event, r, ...)\<close> that ends by
  creating a session removes from the set of \<open>r\<close> every member that was Expired when it
  was called (and adds the new session).
\<close>

theorem registry_membership:
  assumes "reachable cmp w"
  shows "(\<forall>i r. i < length (sessions w) \<and> rule (sessions w ! i) = Some r \<and>
            state (sessions w ! i) \<in>
              {WorkingSessionState, SpareSessionState, SuspendSessionState} \<longrightarrow>
            (\<exists>ms. instances w r = Some ms \<and> i \<in> set ms)) \<and>
         (\<forall>i. i < length (sessions w) \<and> state (sessions w ! i) = WorkingSessionState \<longrightarrow>
            state (sessions (run_op w (i, OpExpire)) ! i) = ExpireSessionState \<and>
            instances (run_op w (i, OpExpire)) = instances w) \<and>
         (\<forall>i r ms ev wait has_cb k env w'.
            instances w r = Some ms \<and> i \<in> set ms \<and>
            state (sessions w ! i) = ExpireSessionState \<and>
            get cmp ev (Some r) wait has_cb k env w = (Value (Some (length (sessions w))), w') \<longrightarrow>
            (\<exists>ms'. instances w' r = Some ms' \<and> i \<notin> set ms' \<and> length (sessions w) \<in> set ms'))"
proof -
  from reachable_inv [OF assms] have wf: "wf_world w" and reg: "registered w" by blast+
  have live: "\<forall>i r. i < length (sessions w) \<and> rule (sessions w ! i) = Some r \<and>
            state (sessions w ! i) \<in>
              {WorkingSessionState, SpareSessionState, SuspendSessionState} \<longrightarrow>
            (\<exists>ms. instances w r = Some ms \<and> i \<in> set ms)"
  proof (intro allI impI)
    fix i r
    assume a: "i < length (sessions w) \<and> rule (sessions w ! i) = Some r \<and>
            state (sessions w ! i) \<in>
              {WorkingSessionState, SpareSessionState, SuspendSessionState}"
    then have "state (sessions w ! i) \<noteq> ExpireSessionState" by auto
    with a reg show "\<exists>ms. instances w r = Some ms \<and> i \<in> set ms"
      unfolding registered_def by blast
  qed
  have lazy: "\<forall>i. i < length (sessions w) \<and> state (sessions w ! i) = WorkingSessionState \<longrightarrow>
            state (sessions (run_op w (i, OpExpire)) ! i) = ExpireSessionState \<and>
            instances (run_op w (i, OpExpire)) = instances w"
    by (simp add: run_op_def session_call_def legal_ops(5))
  have removal: "\<forall>i r ms ev wait has_cb k env w'.
            instances w r = Some ms \<and> i \<in> set ms \<and>
            state (sessions w ! i) = ExpireSessionState \<and>
            get cmp ev (Some r) wait has_cb k env w = (Value (Some (length (sessions w))), w') \<longrightarrow>
            (\<exists>ms'. instances w' r = Some ms' \<and> i \<notin> set ms' \<and> length (sessions w) \<in> set ms')"
    using get_removes_expired [OF wf] by blast
  from live lazy removal show ?thesis by blast
qed

lemma expired_world_reachable:
  "reachable same_user
     \<lparr>sessions = [\<lparr>event = (7, ''hello''), rule = Some 0, keep = False,
                    state = ExpireSessionState, notified = [refresh_cond]\<rparr>],
       instances = (\<lambda>r. None)(0 \<mapsto> [0]), instance_locks = {0}, nowait_cb_calls = 0\<rparr>"
proof -
  have "reachable same_user
          (snd (get same_user (7, ''hello'') (Some 0) True False False [] init_world))"
    by (rule reach_get [OF reach_init])
  then have "reachable same_user
          (run_op (snd (get same_user (7, ''hello'') (Some 0) True False False [] init_world))
             (0, OpExpire))"
    by (rule reach_op)
  then show ?thesis
    by (simp add: first_get run_op_def session_call_def expire_def
        WorkingSessionState_expire_def to_state_def notify_def)
qed

lemma second_get:
  "get same_user (7, ''again'') (Some 0) True False False []
     \<lparr>sessions = [\<lparr>event = (7, ''hello''), rule = Some 0, keep = False,
                    state = ExpireSessionState, notified = [refresh_cond]\<rparr>],
       instances = (\<lambda>r. None)(0 \<mapsto> [0]), instance_locks = {0}, nowait_cb_calls = 0\<rparr> =
     (Value (Some 1),
      \<lparr>sessions = [\<lparr>event = (7, ''hello''), rule = Some 0, keep = False,
                    state = ExpireSessionState, notified = [refresh_cond]\<rparr>,
                   \<lparr>event = (7, ''again''), rule = Some 0, keep = False,
                    state = WorkingSessionState, notified = []\<rparr>],
       instances = (\<lambda>r. None)(0 \<mapsto> [1]), instance_locks = {0}, nowait_cb_calls = 0\<rparr>)"
  by (simp add: get_def create_session_def Session_init_def Let_def on_state_def
      scan_workings.simps)

theorem registry_membership_witness:
  "(\<exists>ms. instances (snd (get same_user (7, ''hello'') (Some 0) True False False [] init_world)) 0
      = Some ms \<and> 0 \<in> set ms) \<and>
   (\<exists>ms'. instances (snd (get same_user (7, ''again'') (Some 0) True False False []
       \<lparr>sessions = [\<lparr>event = (7, ''hello''), rule = Some 0, keep = False,
                    state = ExpireSessionState, notified = [refresh_cond]\<rparr>],
        instances = (\<lambda>r. None)(0 \<mapsto> [0]), instance_locks = {0}, nowait_cb_calls = 0\<rparr>)) 0
      = Some ms' \<and> 0 \<notin> set ms' \<and> 1 \<in> set ms')"
proof -
  have r1: "reachable same_user
          (snd (get same_user (7, ''hello'') (Some 0) True False False [] init_world))"
    by (rule reach_get [OF reach_init])
  have a: "\<exists>ms. instances (snd (get same_user (7, ''hello'') (Some 0) True False False []
      init_world)) 0 = Some ms \<and> 0 \<in> set ms"
    using registry_membership [OF r1] by (simp add: first_get)
  have b: "\<exists>ms'. instances (snd (get same_user (7, ''again'') (Some 0) True False False []
       \<lparr>sessions = [\<lparr>event = (7, ''hello''), rule = Some 0, keep = False,
                    state = ExpireSessionState, notified = [refresh_cond]\<rparr>],
        instances = (\<lambda>r. None)(0 \<mapsto> [0]), instance_locks = {0}, nowait_cb_calls = 0\<rparr>)) 0
      = Some ms' \<and> 0 \<notin> set ms' \<and> 1 \<in> set ms'"
    using registry_membership [OF expired_world_reachable] second_get by simp
  from a b show ?thesis by blast
qed

section \<open>Properties: Dependency injection (\_di.py)\<close>

subsection \<open>What fulfilling leaves alone\<close>

lemma Depends_body_calls:
  "body_calls (snd (snd (Depends_get vd d scope st))) = body_calls st"
  "body_calls (snd (snd (Depends_fulfill vd d scope st))) = body_calls st"
proof (induction vd d scope st and vd d scope st rule: Depends_get_Depends_fulfill.induct)
  case (1 vd i g sub c scope st)
  show ?case by (simp add: Let_def split: sum.splits)
next
  case (2 vd i ref sub c scope st)
  then show ?case by (auto simp: Let_def split: sum.splits prod.splits option.splits)
next
  case (3 vd i src sub c scope st)
  then show ?case by (auto split: sum.splits prod.splits)
qed

lemma AutoDepends_fulfill_fetch:
  "AutoDepends_fulfill env ad scope st =
     (case ctx_get env (ad_source ad) of
        None \<Rightarrow>
          (Inl ContextFetchError, scope,
           st\<lparr>getter_calls := (getter_calls st)(ad_id ad := Suc (getter_calls st (ad_id ad)))\<rparr>)
      | Some val \<Rightarrow>
          (check_fetched env ad val, scope(ad_id ad \<mapsto> val),
           st\<lparr>getter_calls := (getter_calls st)(ad_id ad := Suc (getter_calls st (ad_id ad)))\<rparr>))"
  by (simp add: AutoDepends_fulfill_def auto_base_def apply_sub_getter_def Let_def
      split: option.splits)

lemma fulfill_arg_body_calls:
  "body_calls (snd (snd (fulfill_arg env a scope st))) = body_calls st"
proof (cases a)
  case (Plain val)
  then show ?thesis by simp
next
  case (Dep d)
  then show ?thesis by (simp add: Depends_body_calls(2))
next
  case (AutoDep ad)
  then show ?thesis by (simp add: AutoDepends_fulfill_fetch split: option.splits)
qed

lemma fulfill_args_body_calls:
  "body_calls (snd (snd (fulfill_args env args scope st))) = body_calls st"
proof (induction args arbitrary: scope st)
  case Nil
  show ?case by simp
next
  case (Cons a args)
  obtain r scope1 st1 where a: "fulfill_arg env a scope st = (r, scope1, st1)"
    by (cases "fulfill_arg env a scope st") auto
  then have b1: "body_calls st1 = body_calls st"
    using fulfill_arg_body_calls [of env a scope st] by simp
  show ?case
  proof (cases r)
    case (Inl err)
    with a b1 show ?thesis by simp
  next
    case (Inr val)
    obtain rs scope2 st2 where as: "fulfill_args env args scope1 st1 = (rs, scope2, st2)"
      by (cases "fulfill_args env args scope1 st1") auto
    then have "body_calls st2 = body_calls st1"
      using Cons.IH [of scope1 st1] by simp
    with a as Inr b1 show ?thesis by (cases rs) simp_all
  qed
qed

lemma wrapped_error_body_not_entered:
  "fst (wrapped env injected args st) = Inl err \<Longrightarrow>
     body_calls (snd (wrapped env injected args st)) = body_calls st"
proof -
  assume e: "fst (wrapped env injected args st) = Inl err"
  obtain rs scope1 st1 where r: "fulfill_args env args (\<lambda>i. None) st = (rs, scope1, st1)"
    by (cases "fulfill_args env args (\<lambda>i. None) st") auto
  then have "body_calls st1 = body_calls st"
    using fulfill_args_body_calls [of env args "\<lambda>i. None" st] by simp
  with e r show ?thesis by (cases rs) (simp_all add: wrapped_def)
qed

lemma fulfill_args_plain_prefix:
  "fulfill_args env (map Plain pre @ AutoDep ad # post) scope st =
     (case AutoDepends_fulfill env ad scope st of
        (Inl err, scope1, st1) \<Rightarrow> (Inl err, scope1, st1)
      | (Inr val, scope1, st1) \<Rightarrow>
          (case fulfill_args env post scope1 st1 of
             (Inl err, scope2, st2) \<Rightarrow> (Inl err, scope2, st2)
           | (Inr vals, scope2, st2) \<Rightarrow> (Inr (pre @ val # vals), scope2, st2)))"
  by (induction pre) (auto split: prod.splits sum.splits)

subsection \<open>Parameters annotated as loggers\<close>

text \<open>
  Claim C10. For a parameter whose hint is a subhint of the logger type and is not an
  \<^verbatim>\<open>Annotated\<close> hint (no metadata), \<^verbatim>\<open>AutoDepends\<close> takes its value from the logger
  stack and \<^verbatim>\<open>fulfill\<close> returns the fetched value as it is, whatever its type: the
  result is the fetched value (or the error of the fetch itself), never
  \<^verbatim>\<open>DependNotMatched\<close>.
\<close>

theorem logger_hint_unchecked:
  assumes "annotated_args env hint = None"
    and "is_subhint env hint (ctx_type env LoggerSrc)"
  shows "\<exists>ad. AutoDepends_init env i func name hint = Inr ad \<and>
           ad_source ad = LoggerSrc \<and> ad_metadata ad = None \<and> ad_hint ad = hint \<and>
           (\<forall>scope st. fst (AutoDepends_fulfill env ad scope st) =
              (case ctx_get env LoggerSrc of
                 None \<Rightarrow> Inl ContextFetchError
               | Some val \<Rightarrow> Inr val)) \<and>
           (\<forall>scope st fn an rt h.
              fst (AutoDepends_fulfill env ad scope st) \<noteq> Inl (DependNotMatched fn an rt h))"
proof -
  define ad :: "('a, 'b, 'c) auto_depends" where
    "ad = \<lparr>ad_id = i, ad_hint = hint, ad_func = func, ad_arg_name = name,
           ad_metadata = None, ad_source = LoggerSrc\<rparr>"
  have init: "AutoDepends_init env i func name hint = Inr ad"
    using assms by (simp add: AutoDepends_init_def pick_source_def ad_def)
  have ck: "\<And>val. check_fetched env ad val = Inr val"
    using assms(2) by (simp add: check_fetched_def ad_def)
  have ful: "\<forall>scope st. fst (AutoDepends_fulfill env ad scope st) =
              (case ctx_get env LoggerSrc of
                 None \<Rightarrow> Inl ContextFetchError
               | Some val \<Rightarrow> Inr val)"
    by (simp add: AutoDepends_fulfill_fetch ck split: option.splits) (simp add: ad_def)
  then have "\<forall>scope st fn an rt h.
              fst (AutoDepends_fulfill env ad scope st) \<noteq> Inl (DependNotMatched fn an rt h)"
    by (simp split: option.splits)
  with init ful show ?thesis by (auto simp: ad_def)
qed

theorem logger_hint_unchecked_witness:
  "\<not> is_type example_env (''ConsoleLogger'', ''stdout'') (Cls ''FileLogger'') \<and>
   (\<exists>ad. AutoDepends_init example_env 0 ''handler'' ''logger'' (Cls ''FileLogger'') = Inr ad \<and>
      fst (AutoDepends_fulfill example_env ad (\<lambda>i. None)
             (new_di_state (void example_env))) = Inr (''ConsoleLogger'', ''stdout''))"
proof -
  have a: "annotated_args example_env (Cls ''FileLogger'') = None"
    by (simp add: example_env_def)
  have b: "is_subhint example_env (Cls ''FileLogger'') (ctx_type example_env LoggerSrc)"
    by (simp add: example_env_def ex_subclass_def)
  have c: "ctx_get example_env LoggerSrc = Some (''ConsoleLogger'', ''stdout'')"
    by (simp add: example_env_def)
  have d: "\<not> is_type example_env (''ConsoleLogger'', ''stdout'') (Cls ''FileLogger'')"
    by (simp add: example_env_def ex_subclass_def)
  from logger_hint_unchecked [OF a b, of 0 "''handler''" "''logger''"] c d
  show ?thesis by auto
qed

subsection \<open>When DependNotMatched is raised\<close>

text \<open>
  Claim C8, as stated, has \<^verbatim>\<open>DependNotMatched\<close> raised whenever the fetched value does not
  satisfy the declared hint. In the source two cases return instead: a parameter
  annotated as a logger (here \<^verbatim>\<open>FileLogger\<close>, while the stack holds a \<^verbatim>\<open>ConsoleLogger\<close>)
  gets the fetched value and the body is entered, and a parameter tagged \<^verbatim>\<open>CustomLogger\<close>
  gets the value of the tag's getter.
\<close>

theorem mismatch_without_error:
  "\<not> is_type example_env (''ConsoleLogger'', ''stdout'') (Cls ''FileLogger'') \<and>
   AutoDepends_init example_env 0 ''handler'' ''logger'' (Cls ''FileLogger'') =
     Inr \<lparr>ad_id = 0, ad_hint = Cls ''FileLogger'', ad_func = ''handler'',
          ad_arg_name = ''logger'', ad_metadata = None, ad_source = LoggerSrc\<rparr> \<and>
   fst (wrapped example_env id
          [AutoDep \<lparr>ad_id = 0, ad_hint = Cls ''FileLogger'', ad_func = ''handler'',
                    ad_arg_name = ''logger'', ad_metadata = None, ad_source = LoggerSrc\<rparr>]
          (new_di_state (void example_env))) =
     Inr [(''ConsoleLogger'', ''stdout'')] \<and>
   body_calls (snd (wrapped example_env id
          [AutoDep \<lparr>ad_id = 0, ad_hint = Cls ''FileLogger'', ad_func = ''handler'',
                    ad_arg_name = ''logger'', ad_metadata = None, ad_source = LoggerSrc\<rparr>]
          (new_di_state (void example_env)))) = 1 \<and>
   fst (AutoDepends_fulfill example_env
          \<lparr>ad_id = 0,
           ad_hint = Ann ''FileLogger'' (CustomLogger (''FileLogger'', ''fallback.log'')),
           ad_func = ''handler'', ad_arg_name = ''logger'',
           ad_metadata = Some (CustomLogger (''FileLogger'', ''fallback.log'')),
           ad_source = LoggerSrc\<rparr>
          Map.empty (new_di_state (void example_env))) =
     Inr (''FileLogger'', ''fallback.log'')"
  by (simp add: example_env_def ex_subclass_def AutoDepends_init_def pick_source_def
      wrapped_def AutoDepends_fulfill_fetch check_fetched_def new_di_state_def)

lemma check_fetched_cases:
  "check_fetched env ad val =
     (if unmatched env ad val then Inl (get_unmatch_exc ad (type_of env val))
      else if \<not> is_type env val (ad_hint ad) \<and> is_CustomLogger (ad_metadata ad)
      then (case ad_metadata ad of Some (CustomLogger g) \<Rightarrow> Inr g | _ \<Rightarrow> Inr val)
      else Inr val)"
proof (cases "ad_metadata ad")
  case None
  then show ?thesis by (simp add: check_fetched_def unmatched_def)
next
  case (Some md)
  then show ?thesis
    by (cases md) (auto simp: check_fetched_def unmatched_def)
qed

text \<open>
  Claim C8, amended. When the value fetched for an auto-injected parameter is an instance
  of a type listed in an \<^verbatim>\<open>Exclude\<close> tag, or does not satisfy the declared hint while the
  parameter is neither tagged \<^verbatim>\<open>CustomLogger\<close> nor (without \<^verbatim>\<open>Exclude\<close> tag) annotated
  with a subhint of the logger type, \<^verbatim>\<open>DependNotMatched\<close> is raised with the function
  name, the parameter name, the type of the value and the hint, and the body of the
  callback is not entered. In every other case no error is raised: with a
  \<^verbatim>\<open>CustomLogger\<close> tag a value that does not satisfy the hint is replaced by the value of
  the tag's getter, and an untagged logger parameter gets the fetched value unchecked.
\<close>

theorem dependency_not_matched:
  assumes "ctx_get env (ad_source ad) = Some val"
  shows "(unmatched env ad val \<longrightarrow>
            fst (AutoDepends_fulfill env ad scope st) =
              Inl (DependNotMatched (ad_func ad) (ad_arg_name ad) (type_of env val) (ad_hint ad)) \<and>
            fst (wrapped env injected (map Plain pre @ AutoDep ad # post) st) =
              Inl (DependNotMatched (ad_func ad) (ad_arg_name ad) (type_of env val) (ad_hint ad)) \<and>
            body_calls (snd (wrapped env injected (map Plain pre @ AutoDep ad # post) st)) =
              body_calls st) \<and>
         (\<not> unmatched env ad val \<longrightarrow>
            (\<forall>err. fst (AutoDepends_fulfill env ad scope st) \<noteq> Inl err)) \<and>
         (\<not> is_type env val (ad_hint ad) \<and> ad_metadata ad = Some (CustomLogger g) \<longrightarrow>
            fst (AutoDepends_fulfill env ad scope st) = Inr g) \<and>
         (\<not> is_Exclude (ad_metadata ad) \<and> \<not> is_CustomLogger (ad_metadata ad) \<and>
          is_subhint env (ad_hint ad) (ctx_type env LoggerSrc) \<longrightarrow>
            fst (AutoDepends_fulfill env ad scope st) = Inr val)"
proof -
  have f: "\<And>scope st. fst (AutoDepends_fulfill env ad scope st) = check_fetched env ad val"
    using assms by (simp add: AutoDepends_fulfill_fetch)
  have raise: "unmatched env ad val \<longrightarrow>
            fst (AutoDepends_fulfill env ad scope st) =
              Inl (DependNotMatched (ad_func ad) (ad_arg_name ad) (type_of env val) (ad_hint ad))"
    by (simp add: f check_fetched_cases get_unmatch_exc_def)
  have w: "unmatched env ad val \<longrightarrow>
            fst (wrapped env injected (map Plain pre @ AutoDep ad # post) st) =
              Inl (DependNotMatched (ad_func ad) (ad_arg_name ad) (type_of env val) (ad_hint ad))"
  proof
    assume u: "unmatched env ad val"
    obtain r scope1 st1 where a: "AutoDepends_fulfill env ad (\<lambda>i. None) st = (r, scope1, st1)"
      by (cases "AutoDepends_fulfill env ad (\<lambda>i. None) st") auto
    with f [of "\<lambda>i. None" st] u
    have "r = Inl (DependNotMatched (ad_func ad) (ad_arg_name ad) (type_of env val) (ad_hint ad))"
      by (simp add: check_fetched_cases get_unmatch_exc_def)
    with a show "fst (wrapped env injected (map Plain pre @ AutoDep ad # post) st) =
              Inl (DependNotMatched (ad_func ad) (ad_arg_name ad) (type_of env val) (ad_hint ad))"
      by (simp add: wrapped_def fulfill_args_plain_prefix)
  qed
  have b: "unmatched env ad val \<longrightarrow>
            body_calls (snd (wrapped env injected (map Plain pre @ AutoDep ad # post) st)) =
              body_calls st"
    using w wrapped_error_body_not_entered by blast
  have ok: "\<not> unmatched env ad val \<longrightarrow>
            (\<forall>err. fst (AutoDepends_fulfill env ad scope st) \<noteq> Inl err)"
    by (simp add: f check_fetched_cases split: option.splits metadata.splits)
  have cl: "\<not> is_type env val (ad_hint ad) \<and> ad_metadata ad = Some (CustomLogger g) \<longrightarrow>
            fst (AutoDepends_fulfill env ad scope st) = Inr g"
    by (simp add: f check_fetched_def)
  have lg: "\<not> is_Exclude (ad_metadata ad) \<and> \<not> is_CustomLogger (ad_metadata ad) \<and>
          is_subhint env (ad_hint ad) (ctx_type env LoggerSrc) \<longrightarrow>
            fst (AutoDepends_fulfill env ad scope st) = Inr val"
  proof (cases "ad_metadata ad")
    case None
    then show ?thesis by (simp add: f check_fetched_def)
  next
    case (Some md)
    then show ?thesis by (cases md) (simp_all add: f check_fetched_def)
  qed
  from raise w b ok cl lg show ?thesis by blast
qed

theorem dependency_not_matched_witness:
  "AutoDepends_init example_env 0 ''handler'' ''event'' (Cls ''MessageEvent'') =
     Inr \<lparr>ad_id = 0, ad_hint = Cls ''MessageEvent'', ad_func = ''handler'',
          ad_arg_name = ''event'', ad_metadata = None, ad_source = EventSrc\<rparr> \<and>
   wrapped example_env (\<lambda>vals. vals)
     [Plain (''str'', ''first''),
      AutoDep \<lparr>ad_id = 0, ad_hint = Cls ''MessageEvent'', ad_func = ''handler'',
               ad_arg_name = ''event'', ad_metadata = None, ad_source = EventSrc\<rparr>]
     (new_di_state (void example_env)) =
     (Inl (DependNotMatched ''handler'' ''event'' ''NoticeEvent'' (Cls ''MessageEvent'')),
      \<lparr>cached = (\<lambda>i. (''VoidType'', ''VOID'')), getter_calls = (\<lambda>i. 0)(0 := Suc 0),
       body_calls = 0\<rparr>) \<and>
   fst (AutoDepends_fulfill example_env
          \<lparr>ad_id = 1, ad_hint = Ann ''Event'' (Exclude [''NoticeEvent'']),
           ad_func = ''handler'', ad_arg_name = ''event'',
           ad_metadata = Some (Exclude [''NoticeEvent'']), ad_source = EventSrc\<rparr>
          (\<lambda>i. None) (new_di_state (void example_env))) =
     Inl (DependNotMatched ''handler'' ''event'' ''NoticeEvent''
            (Ann ''Event'' (Exclude [''NoticeEvent''])))"
proof -
  let ?ad = "\<lparr>ad_id = 0, ad_hint = Cls ''MessageEvent'', ad_func = ''handler'',
          ad_arg_name = ''event'', ad_metadata = None, ad_source = EventSrc\<rparr>
          :: (ex_value, string, ex_hint) auto_depends"
  let ?ax = "\<lparr>ad_id = 1, ad_hint = Ann ''Event'' (Exclude [''NoticeEvent'']),
           ad_func = ''handler'', ad_arg_name = ''event'',
           ad_metadata = Some (Exclude [''NoticeEvent'']), ad_source = EventSrc\<rparr>
          :: (ex_value, string, ex_hint) auto_depends"
  have g: "ctx_get example_env (ad_source ?ad) = Some (''NoticeEvent'', ''user 7 joined'')"
    "ctx_get example_env (ad_source ?ax) = Some (''NoticeEvent'', ''user 7 joined'')"
    by (simp_all add: example_env_def)
  have u: "unmatched example_env ?ad (''NoticeEvent'', ''user 7 joined'')"
    "unmatched example_env ?ax (''NoticeEvent'', ''user 7 joined'')"
    by (simp_all add: unmatched_def example_env_def ex_subclass_def)
  have i: "AutoDepends_init example_env 0 ''handler'' ''event'' (Cls ''MessageEvent'') = Inr ?ad"
    by (simp add: AutoDepends_init_def pick_source_def example_env_def ex_subclass_def)
  have w: "snd (wrapped example_env (\<lambda>vals. vals) [Plain (''str'', ''first''), AutoDep ?ad]
     (new_di_state (void example_env))) =
      \<lparr>cached = (\<lambda>i. (''VoidType'', ''VOID'')), getter_calls = (\<lambda>i. 0)(0 := Suc 0),
       body_calls = 0\<rparr>"
    by (simp add: wrapped_def AutoDepends_fulfill_fetch example_env_def new_di_state_def
        check_fetched_def ex_subclass_def split: sum.splits)
  from dependency_not_matched [OF g(1), where scope = "\<lambda>i. None"
      and st = "new_di_state (void example_env)" and injected = "\<lambda>vals. vals"
      and pre = "[(''str'', ''first'')]" and post = "[]"] u(1)
  have a: "fst (wrapped example_env (\<lambda>vals. vals) [Plain (''str'', ''first''), AutoDep ?ad]
     (new_di_state (void example_env))) =
     Inl (DependNotMatched ''handler'' ''event'' ''NoticeEvent'' (Cls ''MessageEvent''))"
    by (simp add: example_env_def)
  from dependency_not_matched [OF g(2), where scope = "\<lambda>i. None"
      and st = "new_di_state (void example_env)" and injected = "\<lambda>vals. vals"
      and pre = "[]" and post = "[]"] u(2)
  have b: "fst (AutoDepends_fulfill example_env ?ax (\<lambda>i. None)
      (new_di_state (void example_env))) =
     Inl (DependNotMatched ''handler'' ''event'' ''NoticeEvent''
            (Ann ''Event'' (Exclude [''NoticeEvent''])))"
    by (simp add: example_env_def)
  from i a w b show ?thesis by (simp add: prod_eq_iff)
qed

subsection \<open>Cached Depends\<close>

lemma cached_hit:
  assumes "dep_cache d" and "cached st (dep_id d) = v" and "v \<noteq> vd"
  shows "Depends_fulfill vd d scope st = (Inr v, scope(dep_id d \<mapsto> v), st)"
  using assms by (cases d) simp

lemma cached_first:
  assumes "dep_cache d" and "cached st (dep_id d) = vd"
    and "Depends_fulfill vd d scope st = (Inr v, scope1, st1)"
  shows "cached st1 (dep_id d) = v"
proof (cases d)
  case (Depends i src sub c)
  with assms(1) have c: "c" by simp
  obtain r sc st' where g: "Depends_get vd (Depends i src sub c) scope st = (r, sc, st')"
    by (cases "Depends_get vd (Depends i src sub c) scope st") auto
  from assms(2,3) Depends c g show ?thesis
    by (cases r) auto
qed

lemma cached_first_scope:
  assumes "dep_cache d" and "cached st (dep_id d) = vd"
    and "Depends_fulfill vd d scope st = (Inr v, scope1, st1)"
  shows "scope1 (dep_id d) = Some v"
proof (cases d)
  case (Depends i src sub c)
  with assms(1) have c: "c" by simp
  obtain r sc st' where g: "Depends_get vd (Depends i src sub c) scope st = (r, sc, st')"
    by (cases "Depends_get vd (Depends i src sub c) scope st") auto
  from assms(2,3) Depends c g show ?thesis
    by (cases r) auto
qed

lemma scope_hit:
  assumes "scope (dep_id d) = Some v" and "v \<noteq> vd"
  shows "Depends_get vd (Depends j (Ref d) sub c) scope st = (apply_sub_getter sub v, scope, st)"
  using assms by simp

lemma cached_first_getter_calls:
  assumes "cached st i = vd"
    and "Depends_fulfill vd (Depends i (Getter g) sub True) scope st = (Inr v, scope1, st1)"
  shows "getter_calls st1 i = Suc (getter_calls st i)"
  using assms by (auto simp: Let_def split: sum.splits)

lemma fulfill_seq_cached:
  assumes "dep_cache d" and "cached st (dep_id d) = v" and "v \<noteq> vd"
  shows "fulfill_seq vd d scopes st = (replicate (length scopes) (Inr v), st)"
  by (induction scopes) (simp_all add: cached_hit [OF assms])

lemma fulfill_args_cached:
  assumes "dep_cache d" and "cached st (dep_id d) = v" and "v \<noteq> void env"
  shows "\<exists>scope'. fulfill_args env (replicate K (Dep d)) scope st =
           (Inr (replicate K v), scope', st)"
proof (induction K arbitrary: scope)
  case 0
  show ?case by simp
next
  case (Suc K)
  from Suc [of "scope(dep_id d \<mapsto> v)"] obtain scope' where
    "fulfill_args env (replicate K (Dep d)) (scope(dep_id d \<mapsto> v)) st =
       (Inr (replicate K v), scope', st)" by blast
  then show ?case by (simp add: cached_hit [OF assms])
qed

text \<open>
  Claim C9, as stated, has the getter of a \<^verbatim>\<open>Depends\<close> created with \<^verbatim>\<open>cache=True\<close> called
  once for the lifetime of the object, whatever it returns. \<^verbatim>\<open>fulfill\<close> tells an empty
  cache by the marker \<^verbatim>\<open>VoidType.VOID\<close>: a getter that returns the marker leaves the cache
  as empty as it was. Here the getter returns the marker at its first call. Two
  fulfillments of the object call it twice and return different values, and so do two
  references to the object within one resolution.
\<close>

theorem cached_void_getter_called_twice:
  "fst (fulfill_seq (''VoidType'', ''VOID'') (Depends 5 (Getter void_first_getter) None True)
          [Map.empty, Map.empty] (new_di_state (''VoidType'', ''VOID''))) =
     [Inr (''VoidType'', ''VOID''), Inr (''str'', ''ready'')] \<and>
   getter_calls
     (snd (fulfill_seq (''VoidType'', ''VOID'') (Depends 5 (Getter void_first_getter) None True)
             [Map.empty, Map.empty] (new_di_state (''VoidType'', ''VOID'')))) 5 = 2 \<and>
   fst (wrapped example_env id
          [Dep (Depends 5 (Getter void_first_getter) None True),
           Dep (Depends 5 (Getter void_first_getter) None True)]
          (new_di_state (void example_env))) =
     Inr [(''VoidType'', ''VOID''), (''str'', ''ready'')] \<and>
   getter_calls
     (snd (wrapped example_env id
             [Dep (Depends 5 (Getter void_first_getter) None True),
              Dep (Depends 5 (Getter void_first_getter) None True)]
             (new_di_state (void example_env)))) 5 = 2"
  by (simp add: wrapped_def new_di_state_def void_first_getter_def apply_sub_getter_def Let_def
      example_env_def)

text \<open>
  Claim C9, amended. Take a \<^verbatim>\<open>Depends\<close> created with \<^verbatim>\<open>cache=True\<close> whose cache is empty,
  and let its first fulfillment resolve to a value \<open>v\<close> other than the marker
  \<^verbatim>\<open>VoidType.VOID\<close>. Then \<open>v\<close> is cached and entered in the scope dictionary; the getter,
  when the object has one, was called once by that fulfillment; a \<^verbatim>\<open>Depends\<close> that refers
  to the object takes \<open>v\<close> from the scope dictionary without fulfilling it again; every
  later fulfillment, with any scope dictionary and any number of times, returns \<open>v\<close> and
  leaves the state as it is, so that no getter is called again; and a single resolution
  that refers to the object \<open>K + 1\<close> times gets \<open>v\<close> each time, with that one call of the
  getter.
\<close>

theorem cache_idempotence:
  assumes c: "dep_cache d" and empty: "cached st (dep_id d) = vd"
    and first: "Depends_fulfill vd d scope st = (Inr v, scope1, st1)"
    and nv: "v \<noteq> vd"
  shows "cached st1 (dep_id d) = v \<and> scope1 (dep_id d) = Some v \<and>
         (\<forall>g sub. d = Depends (dep_id d) (Getter g) sub True \<longrightarrow>
            getter_calls st1 (dep_id d) = Suc (getter_calls st (dep_id d))) \<and>
         (\<forall>j sub c st'. Depends_get vd (Depends j (Ref d) sub c) scope1 st' =
            (apply_sub_getter sub v, scope1, st')) \<and>
         (\<forall>scope'. Depends_fulfill vd d scope' st1 = (Inr v, scope'(dep_id d \<mapsto> v), st1)) \<and>
         (\<forall>scopes. fulfill_seq vd d scopes st1 = (replicate (length scopes) (Inr v), st1)) \<and>
         (void env = vd \<and> scope = (\<lambda>i. None) \<longrightarrow>
            wrapped env injected (replicate (Suc K) (Dep d)) st =
              (Inr (injected (replicate (Suc K) v)), st1\<lparr>body_calls := Suc (body_calls st1)\<rparr>))"
proof -
  have kept: "cached st1 (dep_id d) = v"
    by (rule cached_first [OF c empty first])
  have once: "\<forall>g sub. d = Depends (dep_id d) (Getter g) sub True \<longrightarrow>
            getter_calls st1 (dep_id d) = Suc (getter_calls st (dep_id d))"
  proof (intro allI impI)
    fix g sub
    assume d: "d = Depends (dep_id d) (Getter g) sub True"
    with first have "Depends_fulfill vd (Depends (dep_id d) (Getter g) sub True) scope st =
        (Inr v, scope1, st1)" by simp
    from cached_first_getter_calls [OF empty this]
    show "getter_calls st1 (dep_id d) = Suc (getter_calls st (dep_id d))" .
  qed
  have again: "\<forall>scope'. Depends_fulfill vd d scope' st1 = (Inr v, scope'(dep_id d \<mapsto> v), st1)"
    using cached_hit [OF c kept nv] by simp
  have many: "\<forall>scopes. fulfill_seq vd d scopes st1 = (replicate (length scopes) (Inr v), st1)"
    using fulfill_seq_cached [OF c kept nv] by simp
  have one_call: "void env = vd \<and> scope = (\<lambda>i. None) \<longrightarrow>
            wrapped env injected (replicate (Suc K) (Dep d)) st =
              (Inr (injected (replicate (Suc K) v)), st1\<lparr>body_calls := Suc (body_calls st1)\<rparr>)"
  proof
    assume a: "void env = vd \<and> scope = (\<lambda>i. None)"
    with nv have nv': "v \<noteq> void env" by simp
    from fulfill_args_cached [OF c kept nv', of K scope1] obtain scope' where
      "fulfill_args env (replicate K (Dep d)) scope1 st1 = (Inr (replicate K v), scope', st1)"
      by blast
    with a first show "wrapped env injected (replicate (Suc K) (Dep d)) st =
              (Inr (injected (replicate (Suc K) v)), st1\<lparr>body_calls := Suc (body_calls st1)\<rparr>)"
      by (simp add: wrapped_def)
  qed
  have in_scope: "scope1 (dep_id d) = Some v"
    by (rule cached_first_scope [OF c empty first])
  have by_scope: "\<forall>j sub c st'. Depends_get vd (Depends j (Ref d) sub c) scope1 st' =
            (apply_sub_getter sub v, scope1, st')"
    using scope_hit [where scope = scope1 and d = d and v = v and vd = vd] in_scope nv
    by simp
  from kept in_scope once by_scope again many one_call show ?thesis by blast
qed

lemma counting_first:
  "Depends_fulfill (''VoidType'', ''VOID'') (Depends 5 (Getter counting_getter) None True)
     (\<lambda>i. None) (new_di_state (''VoidType'', ''VOID'')) =
     (Inr (''str'', ''''), (\<lambda>i. None)(5 \<mapsto> (''str'', '''')),
      \<lparr>cached = (\<lambda>i. (''VoidType'', ''VOID''))(5 := (''str'', '''')),
       getter_calls = (\<lambda>i. 0)(5 := Suc 0), body_calls = 0\<rparr>)"
  by (simp add: new_di_state_def counting_getter_def apply_sub_getter_def Let_def)

theorem cache_idempotence_witness:
  "fulfill_seq (''VoidType'', ''VOID'') (Depends 5 (Getter counting_getter) None True)
     [\<lambda>i. None, \<lambda>i. None, \<lambda>i. None]
     \<lparr>cached = (\<lambda>i. (''VoidType'', ''VOID''))(5 := (''str'', '''')),
      getter_calls = (\<lambda>i. 0)(5 := Suc 0), body_calls = 0\<rparr> =
     ([Inr (''str'', ''''), Inr (''str'', ''''), Inr (''str'', '''')],
      \<lparr>cached = (\<lambda>i. (''VoidType'', ''VOID''))(5 := (''str'', '''')),
       getter_calls = (\<lambda>i. 0)(5 := Suc 0), body_calls = 0\<rparr>) \<and>
   wrapped example_env (\<lambda>vals. vals)
     (replicate (Suc 2) (Dep (Depends 5 (Getter counting_getter) None True)))
     (new_di_state (''VoidType'', ''VOID'')) =
     (Inr [(''str'', ''''), (''str'', ''''), (''str'', '''')],
      \<lparr>cached = (\<lambda>i. (''VoidType'', ''VOID''))(5 := (''str'', '''')),
       getter_calls = (\<lambda>i. 0)(5 := Suc 0), body_calls = Suc 0\<rparr>)"
proof -
  have c: "dep_cache (Depends 5 (Getter counting_getter) None True)" by simp
  have e: "cached (new_di_state (''VoidType'', ''VOID''))
             (dep_id (Depends 5 (Getter counting_getter) None True)) = (''VoidType'', ''VOID'')"
    by (simp add: new_di_state_def)
  have n: "(''str'', '''') \<noteq> (''VoidType'', ''VOID'')" by simp
  have v: "void example_env = (''VoidType'', ''VOID'')" by (simp add: example_env_def)
  from cache_idempotence [OF c e counting_first n, where env = example_env
      and injected = "\<lambda>vals. vals" and K = 2] v
  show ?thesis by (simp add: numeral_3_eq_3)
qed

lemma uncached_depends_calls_again:
  "fst (wrapped example_env (\<lambda>vals. vals)
     [Dep (Depends 6 (Getter counting_getter) None False),
      Dep (Depends 6 (Getter counting_getter) None False)]
     (new_di_state (''VoidType'', ''VOID''))) =
     Inr [(''str'', ''''), (''str'', ''x'')]"
  by (simp add: wrapped_def new_di_state_def counting_getter_def apply_sub_getter_def Let_def
      example_env_def)

subsection \<open>Concurrent fulfillments of a cached Depends\<close>

lemma cache_inv_start:
  "cache_inv vd g \<lparr>cf_cached = vd, cf_lock = None, cf_calls = 0, cf_tasks = replicate k AtStart\<rparr>"
  by (simp add: cache_inv_def)

lemma cache_inv_step:
  assumes nv: "g 0 \<noteq> vd" and inv: "cache_inv vd g c" and st: "cache_step vd g c c'"
  shows "cache_inv vd g c'"
  using st
proof (cases rule: cache_step.cases)
  case (hit t)
  from hit(4) inv have lk: "cf_lock c = None"
    unfolding cache_inv_def by (cases "cf_lock c") auto
  with hit(4) inv have "cf_cached c = g 0 \<and> cf_calls c = 1"
    unfolding cache_inv_def by auto
  with inv hit lk show ?thesis
    unfolding cache_inv_def set_task_def by (auto simp: nth_list_update)
next
  case (miss t)
  with inv show ?thesis
    unfolding cache_inv_def set_task_def by (auto simp: nth_list_update)
next
  case (locked_call t)
  from locked_call(4,5) inv nv have z: "cf_calls c = 0"
    unfolding cache_inv_def by auto
  have nofin: "\<And>u v. u < length (cf_tasks c) \<Longrightarrow> cf_tasks c ! u \<noteq> Finished v"
    using inv locked_call(5) nv unfolding cache_inv_def by metis
  have noget: "\<And>u n. u < length (cf_tasks c) \<Longrightarrow> cf_tasks c ! u \<noteq> InGet n"
    using inv locked_call(4) unfolding cache_inv_def by (metis option.distinct(1))
  from locked_call z nofin noget show ?thesis
    unfolding cache_inv_def set_task_def by (auto simp: nth_list_update)
next
  case (locked_hit t)
  with inv have "cf_cached c = g 0 \<and> cf_calls c = 1"
    unfolding cache_inv_def by auto
  with inv locked_hit show ?thesis
    unfolding cache_inv_def set_task_def by (auto simp: nth_list_update)
next
  case (returned t n)
  from returned(2,3) inv have lk: "cf_lock c = Some t" and n0: "n = 0"
    unfolding cache_inv_def by blast+
  with inv have cv: "cf_cached c = vd" and c1: "cf_calls c = 1"
    unfolding cache_inv_def by blast+
  have noget: "\<And>u m. u < length (cf_tasks c) \<Longrightarrow> u \<noteq> t \<Longrightarrow> cf_tasks c ! u \<noteq> InGet m"
    using inv lk unfolding cache_inv_def by (metis option.inject)
  have nofin: "\<And>u v. u < length (cf_tasks c) \<Longrightarrow> cf_tasks c ! u \<noteq> Finished v"
    using inv cv nv unfolding cache_inv_def by metis
  from returned n0 c1 noget nofin show ?thesis
    unfolding cache_inv_def set_task_def by (auto simp: nth_list_update)
qed

lemma cache_run_inv: "cache_run vd g k c \<Longrightarrow> g 0 \<noteq> vd \<Longrightarrow> cache_inv vd g c"
proof (induction rule: cache_run.induct)
  case start
  show ?case by (rule cache_inv_start)
next
  case (step c c')
  from step.IH [OF step.prems] have "cache_inv vd g c" .
  from cache_inv_step [OF step.prems this step.hyps(2)] show ?case .
qed

text \<open>
  However the tasks interleave, the getter is called at most once, and every task that has
  returned has returned the result of that one call.
\<close>

lemma cached_fulfill_interleaved:
  assumes "g 0 \<noteq> vd" and "cache_run vd g k c"
  shows "cf_calls c \<le> 1 \<and>
         (\<forall>t v. t < length (cf_tasks c) \<and> cf_tasks c ! t = Finished v \<longrightarrow>
            v = g 0 \<and> cf_calls c = 1)"
proof -
  from cache_run_inv [OF assms(2,1)] have inv: "cache_inv vd g c" .
  have "cf_calls c \<le> 1"
  proof (cases "cf_lock c")
    case None
    with inv show ?thesis unfolding cache_inv_def by auto
  next
    case (Some t)
    with inv show ?thesis unfolding cache_inv_def by auto
  qed
  moreover have "\<forall>t v. t < length (cf_tasks c) \<and> cf_tasks c ! t = Finished v \<longrightarrow>
            v = g 0 \<and> cf_calls c = 1"
    using inv unfolding cache_inv_def by blast
  ultimately show ?thesis by blast
qed

end
